theory Spec2Isabelle
  imports Main "HOL-Library.Monad_Syntax"
begin

section \<open>The element type and the owned array\<close>

text \<open>
  \<open>SimpleVector<Type>\<close> is a template. What the container needs of \<open>Type\<close> is
  passed as a record: the value of \<open>Type{}\<close>, the state \<open>std::move\<close> leaves a
  moved-from object in, and the content of a slot of a newly allocated array.
  For \<open>int\<close> the default is \<open>0\<close> and a moved-from object keeps its value.
\<close>

record 'a Type =
  Default :: 'a
  Moved :: "'a \<Rightarrow> 'a"
  Uninit :: 'a

text \<open>
  An \<open>ArrayPtr<Type>\<close> owns a heap array of fixed length: a list. Iterators and raw
  pointers into the array are offsets from its first element. \<open>size_t\<close> is \<open>nat\<close>:
  every size and capacity is the length of an array that was allocated, so
  \<open>2 * capacity_\<close> and \<open>size_ + 1\<close> do not wrap; allocation failure is not modelled.
  A read or write outside the array is undefined behaviour, the value \<open>None\<close>.
\<close>

type_synonym 'a ArrayPtr = "'a list"

text \<open>
  Modelled from the spec: the class \<open>ArrayPtr\<close> of \<open>array_ptr.h\<close>, which is not among
  the sources. Section 4.1: \<open>Construct(capacity)\<close> allocates storage for \<open>capacity\<close>
  elements, capacity 0 gives an empty buffer holding no storage. What a fresh slot
  holds is not said; it is the value \<open>Uninit\<close>.
\<close>

definition ArrayPtr_new :: "'a Type \<Rightarrow> nat \<Rightarrow> 'a ArrayPtr" where
  "ArrayPtr_new T n = replicate n (Uninit T)"

text \<open>
  Modelled from the spec: the default constructor of \<open>ArrayPtr\<close>, a buffer holding no
  storage (the member \<open>array_ptr_\<close> of a vector under construction).
\<close>

definition ArrayPtr_default :: "'a ArrayPtr" where
  "ArrayPtr_default = []"

text \<open>
  Modelled from the spec: \<open>ArrayPtr::swap\<close>, section 4.1: exchanges the owned regions
  of two buffers. The pair is (this, other) after the call.
\<close>

definition ArrayPtr_swap :: "'a ArrayPtr \<Rightarrow> 'a ArrayPtr \<Rightarrow> 'a ArrayPtr \<times> 'a ArrayPtr" where
  "ArrayPtr_swap this other = (other, this)"

text \<open>
  Modelled from the spec: the move assignment of \<open>ArrayPtr\<close>, section 4.1: transfers
  ownership of the region, the source is left holding none. The pair is
  (this, source) after the assignment.
\<close>

definition ArrayPtr_move_assign ::
  "'a ArrayPtr \<Rightarrow> 'a ArrayPtr \<Rightarrow> 'a ArrayPtr \<times> 'a ArrayPtr" where
  "ArrayPtr_move_assign this source = (source, [])"

text \<open>
  Modelled from the spec: \<open>ArrayPtr::operator[]\<close>, section 4.1: a reference to the slot
  at an offset, with no bounds check; here the slot is read (\<open>load\<close>) or written
  (\<open>store\<close>) through the reference.
\<close>

definition load :: "'a ArrayPtr \<Rightarrow> nat \<Rightarrow> 'a option" where
  "load buf i = (if i < length buf then Some (buf ! i) else None)"

definition store :: "'a ArrayPtr \<Rightarrow> nat \<Rightarrow> 'a \<Rightarrow> 'a ArrayPtr option" where
  "store buf i x = (if i < length buf then Some (buf[i := x]) else None)"

section \<open>The standard algorithms the container calls\<close>

text \<open>
  The algorithms of \<open><algorithm>\<close> are written as the loops the standard describes
  them by, over offsets into the arrays. The parameters \<open>last\<close>, \<open>value\<close> and \<open>size\<close> of
  the source are written \<open>last'\<close>, \<open>val\<close> and \<open>sz\<close>.

  \<open>std::copy(first, last, d_first)\<close> from one array into another:
  \<open>while (first != last) *d_first++ = *first++;\<close>
\<close>

function std_copy :: "'a list \<Rightarrow> nat \<Rightarrow> nat \<Rightarrow> 'a list \<Rightarrow> nat \<Rightarrow> 'a list option" where
  "std_copy src first last' dst d_first =
     (if first = last' then Some dst
      else if first < length src \<and> d_first < length dst
      then std_copy src (Suc first) last' (dst[d_first := src ! first]) (Suc d_first)
      else None)"
  by pat_completeness auto
termination
  by (relation "measure (\<lambda>(src, first, last', dst, d_first). length src - first)") auto

declare std_copy.simps [simp del]

text \<open>
  \<open>std::copy_backward(first, last, d_last)\<close> from one array into another:
  \<open>while (first != last) *(--d_last) = *(--last);\<close>
\<close>

function std_copy_backward ::
  "'a list \<Rightarrow> nat \<Rightarrow> nat \<Rightarrow> 'a list \<Rightarrow> nat \<Rightarrow> 'a list option" where
  "std_copy_backward src first last' dst d_last =
     (if first = last' then Some dst
      else if 0 < last' \<and> last' \<le> length src \<and> 0 < d_last \<and> d_last \<le> length dst
      then std_copy_backward src first (last' - 1)
             (dst[d_last - 1 := src ! (last' - 1)]) (d_last - 1)
      else None)"
  by pat_completeness auto
termination
  by (relation "measure (\<lambda>(src, first, last', dst, d_last). last')") auto

declare std_copy_backward.simps [simp del]

text \<open>
  \<open>std::move\<close> and \<open>std::move_backward\<close> from one array into another assign the
  same values to the destination as the copying algorithms. They leave the source
  elements moved-from; every caller in \<open>simple_vector.h\<close> releases the source array
  right after (it is swapped or moved into a temporary that is destroyed), so the
  source is not returned.
\<close>

definition std_move :: "'a list \<Rightarrow> nat \<Rightarrow> nat \<Rightarrow> 'a list \<Rightarrow> nat \<Rightarrow> 'a list option" where
  "std_move src first last' dst d_first = std_copy src first last' dst d_first"

definition std_move_backward ::
  "'a list \<Rightarrow> nat \<Rightarrow> nat \<Rightarrow> 'a list \<Rightarrow> nat \<Rightarrow> 'a list option" where
  "std_move_backward src first last' dst d_last = std_copy_backward src first last' dst d_last"

text \<open>
  The same algorithms with source and destination range in one array, where an
  assignment can overwrite an element that is read later. They are the element-wise
  loops above. The standard asks of \<open>std::copy_backward\<close> and \<open>std::move_backward\<close>
  that \<open>d_last\<close> is not in \<open>(first, last]\<close>, and of \<open>std::move\<close> that \<open>d_first\<close> is not
  in \<open>[first, last)\<close>; the calls in \<open>Erase\<close> and in \<open>Insert(pos, Type&&)\<close> meet this,
  the call in \<open>Insert(pos, const Type&)\<close> does not when \<open>pos\<close> is before \<open>end()\<close>. With
  \<open>pos = end() - 1\<close> that call copies one element onto itself, which the loop and a
  \<open>memmove\<close> do alike.
\<close>

function copy_backward_within :: "'a list \<Rightarrow> nat \<Rightarrow> nat \<Rightarrow> nat \<Rightarrow> 'a list option" where
  "copy_backward_within buf first last' d_last =
     (if first = last' then Some buf
      else if 0 < last' \<and> last' \<le> length buf \<and> 0 < d_last \<and> d_last \<le> length buf
      then copy_backward_within (buf[d_last - 1 := buf ! (last' - 1)]) first (last' - 1) (d_last - 1)
      else None)"
  by pat_completeness auto
termination
  by (relation "measure (\<lambda>(buf, first, last', d_last). last')") auto

declare copy_backward_within.simps [simp del]

text \<open>
  \<open>*(--d_last) = std::move(*(--last))\<close>: the destination takes the value, the source
  slot is left moved-from.
\<close>

function move_backward_within ::
  "'a Type \<Rightarrow> 'a list \<Rightarrow> nat \<Rightarrow> nat \<Rightarrow> nat \<Rightarrow> 'a list option" where
  "move_backward_within T buf first last' d_last =
     (if first = last' then Some buf
      else if 0 < last' \<and> last' \<le> length buf \<and> 0 < d_last \<and> d_last \<le> length buf
      then move_backward_within T
             (buf[last' - 1 := Moved T (buf ! (last' - 1)), d_last - 1 := buf ! (last' - 1)])
             first (last' - 1) (d_last - 1)
      else None)"
  by pat_completeness auto
termination
  by (relation "measure (\<lambda>(T, buf, first, last', d_last). last')") auto

declare move_backward_within.simps [simp del]

text \<open>\<open>*d_first++ = std::move(*first++)\<close> within one array.\<close>

function move_within :: "'a Type \<Rightarrow> 'a list \<Rightarrow> nat \<Rightarrow> nat \<Rightarrow> nat \<Rightarrow> 'a list option" where
  "move_within T buf first last' d_first =
     (if first = last' then Some buf
      else if first < length buf \<and> d_first < length buf
      then move_within T
             (buf[first := Moved T (buf ! first), d_first := buf ! first])
             (Suc first) last' (Suc d_first)
      else None)"
  by pat_completeness auto
termination
  by (relation "measure (\<lambda>(T, buf, first, last', d_first). length buf - first)") auto

declare move_within.simps [simp del]

text \<open>\<open>std::fill(first, last, value)\<close>: \<open>for (; first != last; ++first) *first = value;\<close>\<close>

function std_fill :: "'a list \<Rightarrow> nat \<Rightarrow> nat \<Rightarrow> 'a \<Rightarrow> 'a list option" where
  "std_fill buf first last' val =
     (if first = last' then Some buf
      else if first < length buf
      then std_fill (buf[first := val]) (Suc first) last' val
      else None)"
  by pat_completeness auto
termination
  by (relation "measure (\<lambda>(buf, first, last', val). length buf - first)") auto

declare std_fill.simps [simp del]

section \<open>SimpleVector\<close>

text \<open>
  The members \<open>array_ptr_\<close>, \<open>size_\<close> and \<open>capacity_\<close>; a name cannot end in an
  underscore here, so the fields are written with a prime.
\<close>

record 'a SimpleVector =
  array_ptr' :: "'a ArrayPtr"
  size' :: nat
  capacity' :: nat

text \<open>
  \<open>FillWithDefaultValue(from, to)\<close>:
  \<open>while (from != to) { *from = Type{}; ++from; }\<close>
\<close>

function FillWithDefaultValue :: "'a Type \<Rightarrow> 'a list \<Rightarrow> nat \<Rightarrow> nat \<Rightarrow> 'a list option" where
  "FillWithDefaultValue T buf from to =
     (if from = to then Some buf
      else if from < length buf
      then FillWithDefaultValue T (buf[from := Default T]) (Suc from) to
      else None)"
  by pat_completeness auto
termination
  by (relation "measure (\<lambda>(T, buf, from, to). length buf - from)") auto

declare FillWithDefaultValue.simps [simp del]

text \<open>\<open>swap(other)\<close> exchanges the three members; the pair is (this, other) after the call.\<close>

definition swap :: "'a SimpleVector \<Rightarrow> 'a SimpleVector \<Rightarrow> 'a SimpleVector \<times> 'a SimpleVector" where
  "swap this other =
     (case ArrayPtr_swap (array_ptr' this) (array_ptr' other) of
        (this_array, other_array) \<Rightarrow>
          (\<lparr>array_ptr' = this_array, size' = size' other, capacity' = capacity' other\<rparr>,
           \<lparr>array_ptr' = other_array, size' = size' this, capacity' = capacity' this\<rparr>))"

subsection \<open>Constructors\<close>

text \<open>\<open>SimpleVector() noexcept = default\<close>, with the member initialisers \<open>size_ = 0\<close>, \<open>capacity_ = 0\<close>.\<close>

definition SimpleVector_default :: "'a SimpleVector" where
  "SimpleVector_default = \<lparr>array_ptr' = ArrayPtr_default, size' = 0, capacity' = 0\<rparr>"

text \<open>\<open>explicit SimpleVector(size_t size)\<close>\<close>

definition SimpleVector_sized :: "'a Type \<Rightarrow> nat \<Rightarrow> 'a SimpleVector option" where
  "SimpleVector_sized T sz = do {
     let array_ptr = ArrayPtr_new T sz;
     array_ptr \<leftarrow> FillWithDefaultValue T array_ptr 0 sz;
     Some \<lparr>array_ptr' = fst (ArrayPtr_swap ArrayPtr_default array_ptr),
           size' = sz, capacity' = sz\<rparr>
   }"

text \<open>\<open>SimpleVector(size_t size, const Type& value)\<close>\<close>

definition SimpleVector_filled :: "'a Type \<Rightarrow> nat \<Rightarrow> 'a \<Rightarrow> 'a SimpleVector option" where
  "SimpleVector_filled T sz val = do {
     let array_ptr = ArrayPtr_new T sz;
     array_ptr \<leftarrow> std_fill array_ptr 0 sz val;
     Some \<lparr>array_ptr' = fst (ArrayPtr_swap ArrayPtr_default array_ptr),
           size' = sz, capacity' = sz\<rparr>
   }"

text \<open>\<open>SimpleVector(std::initializer_list<Type> init)\<close>\<close>

definition SimpleVector_init :: "'a Type \<Rightarrow> 'a list \<Rightarrow> 'a SimpleVector option" where
  "SimpleVector_init T init = do {
     new_vector \<leftarrow> SimpleVector_sized T (length init);
     buf \<leftarrow> std_copy init 0 (length init) (array_ptr' new_vector) 0;
     Some (fst (swap SimpleVector_default (new_vector\<lparr>array_ptr' := buf\<rparr>)))
   }"

text \<open>\<open>SimpleVector(const SimpleVector& other)\<close>\<close>

definition SimpleVector_copy :: "'a Type \<Rightarrow> 'a SimpleVector \<Rightarrow> 'a SimpleVector option" where
  "SimpleVector_copy T other = do {
     buf \<leftarrow> std_copy (array_ptr' other) 0 (size' other) (ArrayPtr_new T (size' other)) 0;
     Some \<lparr>array_ptr' = buf, size' = size' other, capacity' = size' other\<rparr>
   }"

text \<open>
  \<open>SimpleVector(SimpleVector&& other) noexcept\<close>: the pair is (this, other) after the
  call.
\<close>

definition SimpleVector_move :: "'a SimpleVector \<Rightarrow> 'a SimpleVector \<times> 'a SimpleVector" where
  "SimpleVector_move other =
     (case ArrayPtr_move_assign ArrayPtr_default (array_ptr' other) of
        (this_array, other_array) \<Rightarrow>
          (\<lparr>array_ptr' = this_array, size' = size' other, capacity' = capacity' other\<rparr>,
           \<lparr>array_ptr' = other_array, size' = 0, capacity' = 0\<rparr>))"

subsection \<open>Capacity\<close>

text \<open>\<open>void Reserve(size_t new_capacity)\<close>\<close>

definition Reserve :: "'a Type \<Rightarrow> 'a SimpleVector \<Rightarrow> nat \<Rightarrow> 'a SimpleVector option" where
  "Reserve T v new_capacity =
     (if new_capacity > capacity' v then do {
        new_vector \<leftarrow> SimpleVector_sized T new_capacity;
        buf \<leftarrow> std_move (array_ptr' v) 0 (size' v) (array_ptr' new_vector) 0;
        Some (fst (swap v (new_vector\<lparr>array_ptr' := buf, size' := size' v\<rparr>)))
      }
      else Some v)"

text \<open>\<open>class ReserveProxyObj\<close> and the free function \<open>Reserve(size_t)\<close> that builds one.\<close>

datatype ReserveProxyObj = ReserveProxyObj (capacity_to_reserve': nat)

definition GetCapacity_proxy :: "ReserveProxyObj \<Rightarrow> nat" where
  "GetCapacity_proxy object = capacity_to_reserve' object"

definition Reserve_proxy :: "nat \<Rightarrow> ReserveProxyObj" where
  "Reserve_proxy capacity_to_reserve = ReserveProxyObj capacity_to_reserve"

text \<open>
  \<open>SimpleVector(ReserveProxyObj object)\<close>: inside the class the name \<open>Reserve\<close> is the
  member function, called on the object under construction, whose members have
  their default initialisers.
\<close>

definition SimpleVector_reserved :: "'a Type \<Rightarrow> ReserveProxyObj \<Rightarrow> 'a SimpleVector option" where
  "SimpleVector_reserved T object = Reserve T SimpleVector_default (GetCapacity_proxy object)"

definition GetSize :: "'a SimpleVector \<Rightarrow> nat" where
  "GetSize v = size' v"

definition GetCapacity :: "'a SimpleVector \<Rightarrow> nat" where
  "GetCapacity v = capacity' v"

definition IsEmpty :: "'a SimpleVector \<Rightarrow> bool" where
  "IsEmpty v = (size' v = 0)"

text \<open>The logical sequence: the elements in \<open>[begin(), end())\<close>.\<close>

definition elems :: "'a SimpleVector \<Rightarrow> 'a list" where
  "elems v = take (size' v) (array_ptr' v)"

subsection \<open>Element access\<close>

datatype exception = out_of_range

text \<open>
  \<open>Type& At(size_t index)\<close> and its \<open>const\<close> twin have the same body. The result is
  what the call returns or throws, with the vector after the call; \<open>None\<close> when the
  slot read lies outside the array.
\<close>

definition At :: "'a SimpleVector \<Rightarrow> nat \<Rightarrow> ((exception + 'a) \<times> 'a SimpleVector) option" where
  "At v index =
     (if index < size' v then do {
        x \<leftarrow> load (array_ptr' v) index;
        Some (Inr x, v)
      }
      else Some (Inl out_of_range, v))"

subsection \<open>Size\<close>

definition Clear :: "'a SimpleVector \<Rightarrow> 'a SimpleVector" where
  "Clear v = v\<lparr>size' := 0\<rparr>"

text \<open>\<open>void Resize(size_t new_size)\<close>\<close>

definition Resize :: "'a Type \<Rightarrow> 'a SimpleVector \<Rightarrow> nat \<Rightarrow> 'a SimpleVector option" where
  "Resize T v new_size =
     (if new_size > size' v then
        if new_size > capacity' v then do {
          let max_size = max (2 * capacity' v) new_size;
          let array_bigger = ArrayPtr_new T max_size;
          array_bigger \<leftarrow> std_move (array_ptr' v) 0 (size' v) array_bigger 0;
          array_bigger \<leftarrow> FillWithDefaultValue T array_bigger (size' v) max_size;
          Some \<lparr>array_ptr' = fst (ArrayPtr_swap (array_ptr' v) array_bigger),
                size' = new_size, capacity' = max_size\<rparr>
        }
        else do {
          buf \<leftarrow> FillWithDefaultValue T (array_ptr' v) (size' v) new_size;
          Some (v\<lparr>array_ptr' := buf, size' := new_size\<rparr>)
        }
      else Some (v\<lparr>size' := new_size\<rparr>))"

subsection \<open>Assignment\<close>

text \<open>
  The right-hand side of an assignment is the object assigned to (\<open>this == &rhs\<close>) or
  another object.
\<close>

datatype 'a rhs = This | Other "'a SimpleVector"

text \<open>\<open>SimpleVector& operator=(const SimpleVector& rhs)\<close>\<close>

definition copy_assign :: "'a Type \<Rightarrow> 'a SimpleVector \<Rightarrow> 'a rhs \<Rightarrow> 'a SimpleVector option" where
  "copy_assign T this r =
     (case r of
        This \<Rightarrow> Some this
      | Other rhs \<Rightarrow>
          if IsEmpty rhs then Some ((Clear this)\<lparr>size' := 0, capacity' := 0\<rparr>)
          else do {
            rhs_copy \<leftarrow> SimpleVector_copy T rhs;
            Some (fst (swap this rhs_copy))
          })"

text \<open>
  \<open>SimpleVector& operator=(SimpleVector&& rhs) noexcept\<close>: the pair is (this, rhs)
  after the call.
\<close>

definition move_assign :: "'a SimpleVector \<Rightarrow> 'a rhs \<Rightarrow> 'a SimpleVector \<times> 'a rhs" where
  "move_assign this r =
     (case r of
        This \<Rightarrow> (this, This)
      | Other rhs \<Rightarrow>
          (case ArrayPtr_move_assign (array_ptr' this) (array_ptr' rhs) of
             (this_array, rhs_array) \<Rightarrow>
               (\<lparr>array_ptr' = this_array, size' = size' rhs, capacity' = capacity' rhs\<rparr>,
                Other \<lparr>array_ptr' = rhs_array, size' = 0, capacity' = 0\<rparr>)))"

subsection \<open>Mutation at the end\<close>

text \<open>\<open>void PushBack(const Type& item)\<close>\<close>

definition PushBack :: "'a Type \<Rightarrow> 'a SimpleVector \<Rightarrow> 'a \<Rightarrow> 'a SimpleVector option" where
  "PushBack T v item =
     (if capacity' v = 0 then do {
        new_vector \<leftarrow> SimpleVector_sized T 1;
        buf \<leftarrow> store (array_ptr' new_vector) 0 item;
        Some (fst (swap v (new_vector\<lparr>array_ptr' := buf\<rparr>)))
      }
      else if capacity' v = size' v then do {
        new_vector \<leftarrow> SimpleVector_sized T (2 * capacity' v);
        buf \<leftarrow> std_copy (array_ptr' v) 0 (size' v) (array_ptr' new_vector) 0;
        buf \<leftarrow> store buf (size' v) item;
        Some (fst (swap v (new_vector\<lparr>array_ptr' := buf, size' := size' v + 1\<rparr>)))
      }
      else do {
        buf \<leftarrow> store (array_ptr' v) (size' v) item;
        Some (v\<lparr>array_ptr' := buf, size' := size' v + 1\<rparr>)
      })"

text \<open>\<open>void PushBack(Type&& item)\<close>\<close>

definition PushBack_move :: "'a Type \<Rightarrow> 'a SimpleVector \<Rightarrow> 'a \<Rightarrow> 'a SimpleVector option" where
  "PushBack_move T v item =
     (if capacity' v = 0 then do {
        new_vector \<leftarrow> SimpleVector_sized T 1;
        buf \<leftarrow> store (array_ptr' new_vector) 0 item;
        Some (fst (move_assign v (Other (new_vector\<lparr>array_ptr' := buf\<rparr>))))
      }
      else if size' v = capacity' v then do {
        new_vector \<leftarrow> SimpleVector_sized T (2 * capacity' v);
        buf \<leftarrow> std_move (array_ptr' v) 0 (size' v) (array_ptr' new_vector) 0;
        buf \<leftarrow> store buf (size' v) item;
        Some (fst (move_assign v (Other (new_vector\<lparr>array_ptr' := buf, size' := size' v + 1\<rparr>))))
      }
      else do {
        buf \<leftarrow> store (array_ptr' v) (size' v) item;
        Some (v\<lparr>array_ptr' := buf, size' := size' v + 1\<rparr>)
      })"

text \<open>\<open>void PopBack() noexcept\<close>\<close>

definition PopBack :: "'a SimpleVector \<Rightarrow> 'a SimpleVector" where
  "PopBack v = (if \<not> IsEmpty v then v\<lparr>size' := size' v - 1\<rparr> else v)"

text \<open>
  A run of \<open>PushBack\<close> calls, one per element of a list, with either overload as
  \<open>push\<close>; it stops at the first call that has no defined result.
\<close>

fun push_all ::
  "('a SimpleVector \<Rightarrow> 'a \<Rightarrow> 'a SimpleVector option) \<Rightarrow> 'a SimpleVector \<Rightarrow> 'a list
   \<Rightarrow> 'a SimpleVector option" where
  "push_all push v [] = Some v"
| "push_all push v (item # items) = do { v' \<leftarrow> push v item; push_all push v' items }"

subsection \<open>Mutation in the interior\<close>

text \<open>
  \<open>Iterator Insert(ConstIterator pos, const Type& value)\<close>. The argument \<open>pos\<close> is the
  offset \<open>std::distance(cbegin(), pos)\<close>; the iterator returned is an offset into
  the array the vector holds after the call.
\<close>

definition Insert ::
  "'a Type \<Rightarrow> 'a SimpleVector \<Rightarrow> nat \<Rightarrow> 'a \<Rightarrow> ('a SimpleVector \<times> nat) option" where
  "Insert T v pos val =
     (let pos_distance = pos in
      if capacity' v = 0 then do {
        new_vector \<leftarrow> SimpleVector_sized T 1;
        buf \<leftarrow> store (array_ptr' new_vector) 0 val;
        Some (fst (swap v (new_vector\<lparr>array_ptr' := buf\<rparr>)), pos_distance)
      }
      else if capacity' v = size' v then do {
        new_vector \<leftarrow> SimpleVector_sized T (2 * capacity' v);
        buf \<leftarrow> std_copy (array_ptr' v) 0 pos_distance (array_ptr' new_vector) 0;
        buf \<leftarrow> store buf pos_distance val;
        buf \<leftarrow> std_copy_backward (array_ptr' v) pos_distance (size' v) buf (size' v + 1);
        Some (fst (swap v (new_vector\<lparr>array_ptr' := buf, size' := size' v + 1\<rparr>)), pos_distance)
      }
      else do {
        buf \<leftarrow> copy_backward_within (array_ptr' v) pos_distance (size' v) (pos_distance + 1);
        buf \<leftarrow> store buf pos_distance val;
        Some (v\<lparr>array_ptr' := buf, size' := size' v + 1\<rparr>, pos_distance)
      })"

text \<open>\<open>Iterator Insert(ConstIterator pos, Type&& value)\<close>\<close>

definition Insert_move ::
  "'a Type \<Rightarrow> 'a SimpleVector \<Rightarrow> nat \<Rightarrow> 'a \<Rightarrow> ('a SimpleVector \<times> nat) option" where
  "Insert_move T v pos val =
     (let pos_distance = pos in
      if capacity' v = 0 then do {
        new_vector \<leftarrow> SimpleVector_sized T 1;
        buf \<leftarrow> store (array_ptr' new_vector) 0 val;
        Some (fst (move_assign v (Other (new_vector\<lparr>array_ptr' := buf\<rparr>))), pos_distance)
      }
      else if capacity' v = size' v then do {
        new_vector \<leftarrow> SimpleVector_sized T (2 * capacity' v);
        buf \<leftarrow> std_move (array_ptr' v) 0 pos_distance (array_ptr' new_vector) 0;
        buf \<leftarrow> store buf pos_distance val;
        buf \<leftarrow> std_move_backward (array_ptr' v) pos_distance (size' v) buf (size' v + 1);
        Some (fst (move_assign v (Other (new_vector\<lparr>array_ptr' := buf, size' := size' v + 1\<rparr>))),
              pos_distance)
      }
      else do {
        buf \<leftarrow> move_backward_within T (array_ptr' v) pos_distance (size' v) (size' v + 1);
        buf \<leftarrow> store buf pos_distance val;
        Some (v\<lparr>array_ptr' := buf, size' := size' v + 1\<rparr>, pos_distance)
      })"

text \<open>
  \<open>Iterator Erase(ConstIterator pos)\<close>. On an empty vector the range handed to
  \<open>std::move\<close> starts behind its end, so the decrement of \<open>size_\<close> is only reached
  with \<open>size_ > 0\<close>.
\<close>

definition Erase :: "'a Type \<Rightarrow> 'a SimpleVector \<Rightarrow> nat \<Rightarrow> ('a SimpleVector \<times> nat) option" where
  "Erase T v pos =
     (let pos_distance = pos in do {
        buf \<leftarrow> move_within T (array_ptr' v) (pos_distance + 1) (size' v) pos_distance;
        Some (v\<lparr>array_ptr' := buf, size' := size' v - 1\<rparr>, pos_distance)
      })"

subsection \<open>Comparison\<close>

text \<open>
  \<open>std::equal(first1, last1, first2, last2)\<close> on random access iterators: ranges of
  different length are unequal, ranges of one length are compared element by element.
\<close>

function equal_loop :: "'a list \<Rightarrow> nat \<Rightarrow> nat \<Rightarrow> 'a list \<Rightarrow> nat \<Rightarrow> bool option" where
  "equal_loop a first1 last1 b first2 =
     (if first1 = last1 then Some True
      else if first1 < length a \<and> first2 < length b
      then (if a ! first1 = b ! first2 then equal_loop a (Suc first1) last1 b (Suc first2)
            else Some False)
      else None)"
  by pat_completeness auto
termination
  by (relation "measure (\<lambda>(a, first1, last1, b, first2). length a - first1)") auto

declare equal_loop.simps [simp del]

definition std_equal ::
  "'a list \<Rightarrow> nat \<Rightarrow> nat \<Rightarrow> 'a list \<Rightarrow> nat \<Rightarrow> nat \<Rightarrow> bool option" where
  "std_equal a first1 last1 b first2 last2 =
     (if last1 - first1 \<noteq> last2 - first2 then Some False
      else equal_loop a first1 last1 b first2)"

text \<open>
  \<open>std::lexicographical_compare(first1, last1, first2, last2)\<close>:
  \<open>for (; first1 != last1 && first2 != last2; ++first1, ++first2) {
      if (*first1 < *first2) return true;
      if (*first2 < *first1) return false; }
    return first1 == last1 && first2 != last2;\<close>
\<close>

function std_lexicographical_compare ::
  "('a::ord) list \<Rightarrow> nat \<Rightarrow> nat \<Rightarrow> 'a list \<Rightarrow> nat \<Rightarrow> nat \<Rightarrow> bool option" where
  "std_lexicographical_compare a first1 last1 b first2 last2 =
     (if first1 \<noteq> last1 \<and> first2 \<noteq> last2 then
        if first1 < length a \<and> first2 < length b then
          if a ! first1 < b ! first2 then Some True
          else if b ! first2 < a ! first1 then Some False
          else std_lexicographical_compare a (Suc first1) last1 b (Suc first2) last2
        else None
      else Some (first1 = last1 \<and> first2 \<noteq> last2))"
  by pat_completeness auto
termination
  by (relation "measure (\<lambda>(a, first1, last1, b, first2, last2). length a - first1)") auto

declare std_lexicographical_compare.simps [simp del]

definition operator_eq :: "'a SimpleVector \<Rightarrow> 'a SimpleVector \<Rightarrow> bool option" where
  "operator_eq lhs rhs =
     std_equal (array_ptr' lhs) 0 (size' lhs) (array_ptr' rhs) 0 (size' rhs)"

definition operator_ne :: "'a SimpleVector \<Rightarrow> 'a SimpleVector \<Rightarrow> bool option" where
  "operator_ne lhs rhs = map_option Not (operator_eq lhs rhs)"

definition operator_lt :: "('a::ord) SimpleVector \<Rightarrow> 'a SimpleVector \<Rightarrow> bool option" where
  "operator_lt lhs rhs =
     std_lexicographical_compare (array_ptr' lhs) 0 (size' lhs) (array_ptr' rhs) 0 (size' rhs)"

definition operator_gt :: "('a::ord) SimpleVector \<Rightarrow> 'a SimpleVector \<Rightarrow> bool option" where
  "operator_gt lhs rhs = operator_lt rhs lhs"

definition operator_le :: "('a::ord) SimpleVector \<Rightarrow> 'a SimpleVector \<Rightarrow> bool option" where
  "operator_le lhs rhs = map_option Not (operator_gt lhs rhs)"

definition operator_ge :: "('a::ord) SimpleVector \<Rightarrow> 'a SimpleVector \<Rightarrow> bool option" where
  "operator_ge lhs rhs = map_option Not (operator_lt lhs rhs)"

subsection \<open>The class invariant\<close>

text \<open>
  \<open>size_\<close> is at most \<open>capacity_\<close>, and the array held has at least \<open>capacity_\<close> slots
  (exactly \<open>capacity_\<close>, except after the assignment of an empty vector, which sets
  \<open>capacity_\<close> to 0 and keeps the array).
\<close>

definition invariant :: "'a SimpleVector \<Rightarrow> bool" where
  "invariant v = (size' v \<le> capacity' v \<and> capacity' v \<le> length (array_ptr' v))"

text \<open>An element type like \<open>int\<close>: default value 0, and moving an object copies it.\<close>

definition int_Type :: "int Type" where
  "int_Type = \<lparr>Default = 0, Moved = (\<lambda>x. x), Uninit = 0\<rparr>"

section \<open>The loops in closed form\<close>

declare ArrayPtr_default_def [simp] ArrayPtr_swap_def [simp] ArrayPtr_move_assign_def [simp]

lemma take_Suc_update: "i < length xs \<Longrightarrow> take (Suc i) (xs[i := x]) = take i xs @ [x]"
  by (simp add: take_Suc_conv_app_nth)

lemma drop_update_Cons: "i < length xs \<Longrightarrow> drop i (xs[i := x]) = x # drop (Suc i) xs"
  using Cons_nth_drop_Suc [of i "xs[i := x]"] by simp

lemma take_drop_Cons:
  "i < j \<Longrightarrow> j \<le> length xs \<Longrightarrow>
   take (j - i) (drop i xs) = xs ! i # take (j - Suc i) (drop (Suc i) xs)"
proof -
  assume a: "i < j" "j \<le> length xs"
  then have "drop i xs = xs ! i # drop (Suc i) xs"
    by (simp add: Cons_nth_drop_Suc)
  moreover have "j - i = Suc (j - Suc i)" using a by simp
  ultimately show ?thesis by simp
qed

lemma take_drop_snoc:
  "i \<le> k \<Longrightarrow> k < length xs \<Longrightarrow>
   take (Suc k - i) (drop i xs) = take (k - i) (drop i xs) @ [xs ! k]"
proof -
  assume a: "i \<le> k" "k < length xs"
  then have "Suc k - i = Suc (k - i)" by simp
  moreover have "k - i < length (drop i xs)" using a by simp
  moreover have "drop i xs ! (k - i) = xs ! k" using a by simp
  ultimately show ?thesis by (simp add: take_Suc_conv_app_nth)
qed

lemma std_copy_Some:
  "first \<le> last' \<Longrightarrow> last' \<le> length src \<Longrightarrow> d_first + (last' - first) \<le> length dst \<Longrightarrow>
   std_copy src first last' dst d_first =
     Some (take d_first dst @ take (last' - first) (drop first src)
           @ drop (d_first + (last' - first)) dst)"
proof (induction src first last' dst d_first rule: std_copy.induct)
  case (1 src first last' dst d_first)
  show ?case
  proof (cases "first = last'")
    case True
    then show ?thesis by (simp add: std_copy.simps)
  next
    case False
    with "1.prems" have lt: "first < last'" "first < length src" "d_first < length dst" by auto
    let ?dst = "dst[d_first := src ! first]"
    have e: "Suc d_first + (last' - Suc first) = d_first + (last' - first)"
      using lt by simp
    have step: "std_copy src (Suc first) last' ?dst (Suc d_first) =
        Some (take (Suc d_first) ?dst @ take (last' - Suc first) (drop (Suc first) src)
              @ drop (Suc d_first + (last' - Suc first)) ?dst)"
      using "1.IH" [OF False] lt "1.prems" by simp
    have a: "take (Suc d_first) ?dst = take d_first dst @ [src ! first]"
      using lt by (simp add: take_Suc_update)
    have b: "drop (Suc d_first + (last' - Suc first)) ?dst = drop (d_first + (last' - first)) dst"
      unfolding e using lt by simp
    have c: "take (last' - first) (drop first src)
             = src ! first # take (last' - Suc first) (drop (Suc first) src)"
      using lt "1.prems" by (simp add: take_drop_Cons)
    have "std_copy src first last' dst d_first = std_copy src (Suc first) last' ?dst (Suc d_first)"
      using False lt by (subst std_copy.simps) simp
    then show ?thesis
      unfolding step a b c by simp
  qed
qed

lemma std_copy_backward_Some:
  "first \<le> last' \<Longrightarrow> last' \<le> length src \<Longrightarrow> last' - first \<le> d_last \<Longrightarrow> d_last \<le> length dst \<Longrightarrow>
   std_copy_backward src first last' dst d_last =
     Some (take (d_last - (last' - first)) dst @ take (last' - first) (drop first src)
           @ drop d_last dst)"
proof (induction src first last' dst d_last rule: std_copy_backward.induct)
  case (1 src first last' dst d_last)
  show ?case
  proof (cases "first = last'")
    case True
    then show ?thesis using "1.prems" by (simp add: std_copy_backward.simps)
  next
    case False
    with "1.prems" have "0 < last'" "0 < d_last" by auto
    then obtain k d where kd: "last' = Suc k" "d_last = Suc d"
      by (cases last'; cases d_last) auto
    have lt: "first \<le> k" "k < length src" "k - first \<le> d" "d < length dst"
      using False "1.prems" kd by auto
    let ?dst = "dst[d := src ! k]"
    have step: "std_copy_backward src first k ?dst d =
        Some (take (d - (k - first)) ?dst @ take (k - first) (drop first src) @ drop d ?dst)"
      using "1.IH" [OF False] lt kd "1.prems" by simp
    have e: "d_last - (last' - first) = d - (k - first)"
      using lt kd by simp
    have a: "take (d - (k - first)) ?dst = take (d - (k - first)) dst"
      by simp
    have b: "drop d ?dst = src ! k # drop d_last dst"
      using lt kd by (simp add: drop_update_Cons)
    have c: "take (last' - first) (drop first src) = take (k - first) (drop first src) @ [src ! k]"
      unfolding kd using lt by (rule_tac take_drop_snoc) 
    have "std_copy_backward src first last' dst d_last = std_copy_backward src first k ?dst d"
      using False lt kd by (subst std_copy_backward.simps) simp
    then show ?thesis
      unfolding step a b c e by simp
  qed
qed


lemma take_drop_update_cancel:
  "i + n \<le> m \<Longrightarrow> take n (drop i (xs[m := y])) = take n (drop i xs)"
  by (simp add: drop_update_swap)

lemma move_backward_within_shift:
  "first \<le> last' \<Longrightarrow> last' < length buf \<Longrightarrow> d_last = Suc last' \<Longrightarrow>
   \<exists>r. move_backward_within T buf first last' d_last = Some r \<and> length r = length buf
     \<and> take first r = take first buf
     \<and> drop (Suc first) r = take (last' - first) (drop first buf) @ drop (Suc last') buf"
proof (induction T buf first last' d_last rule: move_backward_within.induct)
  case (1 T buf first last' d_last)
  show ?case
  proof (cases "first = last'")
    case True
    then show ?thesis by (simp add: move_backward_within.simps)
  next
    case False
    with "1.prems" have "0 < last'" by auto
    then obtain k where k: "last' = Suc k" by (cases last') auto
    have lt: "first \<le> k" "Suc k < length buf" "d_last = Suc (Suc k)"
      using False "1.prems" k by auto
    let ?buf = "buf[k := Moved T (buf ! k), Suc k := buf ! k]"
    have unfold: "move_backward_within T buf first last' d_last
                  = move_backward_within T ?buf first k (Suc k)"
      using False lt k by (subst move_backward_within.simps) simp
    have "\<exists>r. move_backward_within T ?buf first k (Suc k) = Some r \<and> length r = length ?buf
       \<and> take first r = take first ?buf
       \<and> drop (Suc first) r = take (k - first) (drop first ?buf) @ drop (Suc k) ?buf"
      using "1.IH" [OF False] lt k by simp
    then obtain r where r: "move_backward_within T ?buf first k (Suc k) = Some r"
      "length r = length ?buf" "take first r = take first ?buf"
      "drop (Suc first) r = take (k - first) (drop first ?buf) @ drop (Suc k) ?buf"
      by blast
    have a: "take first ?buf = take first buf"
      using lt by simp
    have b: "take (k - first) (drop first ?buf) = take (k - first) (drop first buf)"
      using lt by (simp add: take_drop_update_cancel)
    have c: "drop (Suc k) ?buf = buf ! k # drop (Suc (Suc k)) buf"
      using lt by (simp add: drop_update_Cons)
    have d: "take (last' - first) (drop first buf) = take (k - first) (drop first buf) @ [buf ! k]"
      unfolding k using lt by (simp add: take_drop_snoc)
    show ?thesis
      unfolding unfold using r a b c d k by simp
  qed
qed

lemma move_within_shift:
  "first \<le> last' \<Longrightarrow> last' \<le> length buf \<Longrightarrow> first = Suc d_first \<Longrightarrow>
   \<exists>r. move_within T buf first last' d_first = Some r \<and> length r = length buf
     \<and> take (last' - 1) r = take d_first buf @ take (last' - first) (drop first buf)
     \<and> drop last' r = drop last' buf"
proof (induction T buf first last' d_first rule: move_within.induct)
  case (1 T buf first last' d_first)
  show ?case
  proof (cases "first = last'")
    case True
    then show ?thesis using "1.prems" by (auto simp add: move_within.simps)
  next
    case False
    have lt: "first < last'" "first < length buf" "d_first < first" "first = Suc d_first"
      using False "1.prems" by auto
    let ?buf = "buf[first := Moved T (buf ! first), d_first := buf ! first]"
    have unfold: "move_within T buf first last' d_first
                  = move_within T ?buf (Suc first) last' (Suc d_first)"
      using False lt by (subst move_within.simps) simp
    have "\<exists>r. move_within T ?buf (Suc first) last' (Suc d_first) = Some r
       \<and> length r = length ?buf
       \<and> take (last' - 1) r
           = take (Suc d_first) ?buf @ take (last' - Suc first) (drop (Suc first) ?buf)
       \<and> drop last' r = drop last' ?buf"
      using "1.IH" [OF False] lt "1.prems" by simp
    then obtain r where r: "move_within T ?buf (Suc first) last' (Suc d_first) = Some r"
      "length r = length ?buf"
      "take (last' - 1) r
         = take (Suc d_first) ?buf @ take (last' - Suc first) (drop (Suc first) ?buf)"
      "drop last' r = drop last' ?buf"
      by blast
    have a: "take (Suc d_first) ?buf = take d_first buf @ [buf ! first]"
      using lt by (simp add: take_Suc_update)
    have b: "drop (Suc first) ?buf = drop (Suc first) buf"
      using lt by simp
    have c: "drop last' ?buf = drop last' buf"
      using lt by simp
    have d: "take (last' - first) (drop first buf)
             = buf ! first # take (last' - Suc first) (drop (Suc first) buf)"
      using lt "1.prems" by (simp add: take_drop_Cons)
    show ?thesis
      unfolding unfold using r a b c d by simp
  qed
qed

lemma copy_backward_within_length:
  "copy_backward_within buf first last' d_last = Some r \<Longrightarrow> length r = length buf"
proof (induction buf first last' d_last rule: copy_backward_within.induct)
  case (1 buf first last' d_last)
  show ?case
  proof (cases "first = last'")
    case True
    then show ?thesis using "1.prems" by (simp add: copy_backward_within.simps)
  next
    case False
    show ?thesis
    proof (cases "0 < last' \<and> last' \<le> length buf \<and> 0 < d_last \<and> d_last \<le> length buf")
      case True
      then have "copy_backward_within (buf[d_last - 1 := buf ! (last' - 1)]) first (last' - 1)
                   (d_last - 1) = Some r"
        using "1.prems" False by (subst (asm) copy_backward_within.simps) simp
      then show ?thesis using "1.IH" [OF False True] by simp
    next
      case nok: False
      then show ?thesis using "1.prems" False
        by (subst (asm) copy_backward_within.simps) (simp split: if_splits)
    qed
  qed
qed

lemma std_fill_Some:
  "first \<le> last' \<Longrightarrow> last' \<le> length buf \<Longrightarrow>
   std_fill buf first last' val =
     Some (take first buf @ replicate (last' - first) val @ drop last' buf)"
proof (induction buf first last' val rule: std_fill.induct)
  case (1 buf first last' val)
  show ?case
  proof (cases "first = last'")
    case True
    then show ?thesis by (simp add: std_fill.simps)
  next
    case False
    with "1.prems" have lt: "first < last'" "first < length buf" by auto
    have step: "std_fill (buf[first := val]) (Suc first) last' val =
        Some (take (Suc first) (buf[first := val]) @
              replicate (last' - Suc first) val @ drop last' (buf[first := val]))"
      using "1.IH" [OF False] lt "1.prems" by simp
    have a: "take (Suc first) (buf[first := val]) = take first buf @ [val]"
      using lt by (simp add: take_Suc_update)
    have b: "drop last' (buf[first := val]) = drop last' buf"
      using lt by simp
    have c: "replicate (last' - first) val = val # replicate (last' - Suc first) val"
      using lt by (simp add: Suc_diff_Suc flip: replicate_Suc)
    have "std_fill buf first last' val = std_fill (buf[first := val]) (Suc first) last' val"
      using False lt by (subst std_fill.simps) simp
    then show ?thesis
      unfolding step a b c by simp
  qed
qed

lemma FillWithDefaultValue_Some:
  "from \<le> to \<Longrightarrow> to \<le> length buf \<Longrightarrow>
   FillWithDefaultValue T buf from to =
     Some (take from buf @ replicate (to - from) (Default T) @ drop to buf)"
proof (induction T buf "from" to rule: FillWithDefaultValue.induct)
  case (1 T buf "from" to)
  show ?case
  proof (cases "from = to")
    case True
    then show ?thesis by (simp add: FillWithDefaultValue.simps)
  next
    case False
    with "1.prems" have lt: "from < to" "from < length buf" by auto
    have step: "FillWithDefaultValue T (buf[from := Default T]) (Suc from) to =
        Some (take (Suc from) (buf[from := Default T]) @
              replicate (to - Suc from) (Default T) @ drop to (buf[from := Default T]))"
      using "1.IH" False lt "1.prems" by simp
    have a: "take (Suc from) (buf[from := Default T]) = take from buf @ [Default T]"
      using lt by (simp add: take_Suc_conv_app_nth)
    have b: "drop to (buf[from := Default T]) = drop to buf"
      using lt by simp
    have c: "replicate (to - from) (Default T) = Default T # replicate (to - Suc from) (Default T)"
      using lt by (simp add: Suc_diff_Suc flip: replicate_Suc)
    show ?thesis
      using False lt step a b c by (subst FillWithDefaultValue.simps) simp
  qed
qed

lemma SimpleVector_sized_eq:
  "SimpleVector_sized T n =
     Some \<lparr>array_ptr' = replicate n (Default T), size' = n, capacity' = n\<rparr>"
  by (simp add: SimpleVector_sized_def ArrayPtr_new_def FillWithDefaultValue_Some)

section \<open>Insert and Erase\<close>

lemma elems_insert_shape:
  assumes "pos \<le> n" "n \<le> length buf"
  shows "take (Suc n) (take pos buf @ x # take (n - pos) (drop pos buf) @ rest)
         = take pos (take n buf) @ [x] @ drop pos (take n buf)"
proof -
  have "length (take pos buf @ x # take (n - pos) (drop pos buf)) = Suc n"
    using assms by simp
  then have "take (Suc n) ((take pos buf @ x # take (n - pos) (drop pos buf)) @ rest)
             = take pos buf @ x # take (n - pos) (drop pos buf)"
    by (metis append_eq_conv_conj)
  moreover have "take pos (take n buf) = take pos buf"
    using assms by (simp add: min_absorb1)
  moreover have "drop pos (take n buf) = take (n - pos) (drop pos buf)"
    by (simp add: drop_take)
  ultimately show ?thesis by simp
qed

lemma Insert_move_inplace:
  assumes "invariant v" "pos \<le> size' v" "capacity' v \<noteq> 0" "capacity' v \<noteq> size' v"
  shows "\<exists>buf. Insert_move T v pos x
           = Some (v\<lparr>array_ptr' := buf, size' := size' v + 1\<rparr>, pos)
         \<and> length buf = length (array_ptr' v)
         \<and> take (Suc (size' v)) buf = take pos (elems v) @ [x] @ drop pos (elems v)"
proof -
  let ?buf = "array_ptr' v" and ?n = "size' v"
  have lt: "?n < length ?buf" using assms by (simp add: invariant_def)
  obtain r where r: "move_backward_within T ?buf pos ?n (Suc ?n) = Some r"
    "length r = length ?buf" "take pos r = take pos ?buf"
    "drop (Suc pos) r = take (?n - pos) (drop pos ?buf) @ drop (Suc ?n) ?buf"
    using move_backward_within_shift [OF assms(2) lt refl, of T] by blast
  have pos: "pos < length r" using assms(2) lt r(2) by simp
  have upd: "r[pos := x] = take pos ?buf @ x # take (?n - pos) (drop pos ?buf) @ drop (Suc ?n) ?buf"
    using pos r(3,4) by (simp add: upd_conv_take_nth_drop)
  have "Insert_move T v pos x = Some (v\<lparr>array_ptr' := r[pos := x], size' := ?n + 1\<rparr>, pos)"
    using assms(3,4) r(1) pos by (simp add: Insert_move_def store_def)
  moreover have "take (Suc ?n) (r[pos := x]) = take pos (elems v) @ [x] @ drop pos (elems v)"
    unfolding upd elems_def using assms(2) lt by (intro elems_insert_shape) simp_all
  ultimately show ?thesis using r(2) by auto
qed

lemma grow_insert_buffer:
  assumes "pos \<le> n" "n \<le> length src" "0 < n"
  shows "\<exists>buf. (do {
             buf \<leftarrow> std_copy src 0 pos (replicate (2 * n) d) 0;
             buf \<leftarrow> store buf pos x;
             std_copy_backward src pos n buf (n + 1) }) = Some buf
         \<and> length buf = 2 * n
         \<and> take (Suc n) buf = take pos (take n src) @ [x] @ drop pos (take n src)"
proof -
  let ?dst = "replicate (2 * n) d"
  have c1: "std_copy src 0 pos ?dst 0 = Some (take pos src @ drop pos ?dst)"
    using assms std_copy_Some [of 0 pos src 0 ?dst] by simp
  let ?b1 = "take pos src @ drop pos ?dst"
  have len1: "length ?b1 = 2 * n" using assms by simp
  have c2: "store ?b1 pos x = Some (?b1[pos := x])"
    using assms len1 by (simp add: store_def)
  let ?b2 = "?b1[pos := x]"
  have len2: "length ?b2 = 2 * n" using len1 by simp
  have tk: "take (Suc pos) ?b2 = take pos src @ [x]"
  proof -
    have "pos < length ?b1" using assms len1 by simp
    then have "take (Suc pos) ?b2 = take pos ?b1 @ [x]" by (rule take_Suc_update)
    moreover have "take pos ?b1 = take pos src" using assms by simp
    ultimately show ?thesis by simp
  qed
  have c3: "std_copy_backward src pos n ?b2 (n + 1)
            = Some (take (n + 1 - (n - pos)) ?b2 @ take (n - pos) (drop pos src) @ drop (n + 1) ?b2)"
    using assms len2 by (intro std_copy_backward_Some) simp_all
  have e: "n + 1 - (n - pos) = Suc pos" using assms by simp
  let ?b3 = "take pos src @ x # take (n - pos) (drop pos src) @ drop (n + 1) ?b2"
  have c3': "std_copy_backward src pos n ?b2 (n + 1) = Some ?b3"
    unfolding c3 e tk by simp
  have len3: "length ?b3 = 2 * n" using assms len2 by simp
  have tk3: "take (Suc n) ?b3 = take pos (take n src) @ [x] @ drop pos (take n src)"
    using assms by (intro elems_insert_shape) simp_all
  have run: "(do {
             buf \<leftarrow> std_copy src 0 pos (replicate (2 * n) d) 0;
             buf \<leftarrow> store buf pos x;
             std_copy_backward src pos n buf (n + 1) }) = Some ?b3"
    using c1 c2 c3' by simp
  show ?thesis using run len3 tk3 by blast
qed


lemma Insert_empty:
  assumes "capacity' v = 0"
  shows "Insert T v pos x = Some (\<lparr>array_ptr' = [x], size' = 1, capacity' = 1\<rparr>, pos)"
    and "Insert_move T v pos x = Some (\<lparr>array_ptr' = [x], size' = 1, capacity' = 1\<rparr>, pos)"
  using assms
  by (simp_all add: Insert_def Insert_move_def SimpleVector_sized_eq store_def swap_def
      move_assign_def)

lemma Insert_full:
  assumes "invariant v" "pos \<le> size' v" "capacity' v \<noteq> 0" "capacity' v = size' v"
  shows "\<exists>buf. Insert T v pos x
           = Some (\<lparr>array_ptr' = buf, size' = size' v + 1, capacity' = 2 * capacity' v\<rparr>, pos)
         \<and> Insert_move T v pos x
           = Some (\<lparr>array_ptr' = buf, size' = size' v + 1, capacity' = 2 * capacity' v\<rparr>, pos)
         \<and> length buf = 2 * capacity' v
         \<and> take (Suc (size' v)) buf = take pos (elems v) @ [x] @ drop pos (elems v)"
proof -
  let ?n = "size' v" and ?src = "array_ptr' v"
  have n: "?n \<le> length ?src" "0 < ?n" using assms by (simp_all add: invariant_def)
  obtain buf where buf: "(do {
             buf \<leftarrow> std_copy ?src 0 pos (replicate (2 * ?n) (Default T)) 0;
             buf \<leftarrow> store buf pos x;
             std_copy_backward ?src pos ?n buf (?n + 1) }) = Some buf"
    "length buf = 2 * ?n"
    "take (Suc ?n) buf = take pos (take ?n ?src) @ [x] @ drop pos (take ?n ?src)"
    using grow_insert_buffer [OF assms(2) n, of "Default T" x] by blast
  have "Insert T v pos x
        = Some (\<lparr>array_ptr' = buf, size' = ?n + 1, capacity' = 2 * capacity' v\<rparr>, pos)"
    using assms(3,4) buf(1)
    by (simp add: Insert_def SimpleVector_sized_eq swap_def bind_eq_Some_conv)
  moreover have "Insert_move T v pos x
        = Some (\<lparr>array_ptr' = buf, size' = ?n + 1, capacity' = 2 * capacity' v\<rparr>, pos)"
    using assms(3,4) buf(1)
    by (simp add: Insert_move_def SimpleVector_sized_eq move_assign_def std_move_def
        std_move_backward_def bind_eq_Some_conv)
  ultimately show ?thesis using buf(2,3) assms(4) by (auto simp add: elems_def)
qed

lemma Insert_move_correct:
  assumes "invariant v" "pos \<le> size' v"
  shows "\<exists>v'. Insert_move T v pos x = Some (v', pos)
          \<and> elems v' = take pos (elems v) @ [x] @ drop pos (elems v)
          \<and> size' v' = size' v + 1
          \<and> capacity' v' = (if capacity' v = size' v then max 1 (2 * capacity' v)
                             else capacity' v)
          \<and> invariant v'"
proof -
  consider (empty) "capacity' v = 0"
    | (full) "capacity' v \<noteq> 0" "capacity' v = size' v"
    | (spare) "capacity' v \<noteq> 0" "capacity' v \<noteq> size' v"
    by blast
  then show ?thesis
  proof cases
    case empty
    then have "size' v = 0" "pos = 0" using assms by (simp_all add: invariant_def)
    then show ?thesis
      using empty Insert_empty(2) [OF empty, of T pos x]
      by (simp add: elems_def invariant_def)
  next
    case full
    from Insert_full [OF assms full, of T x] obtain buf where
      "Insert_move T v pos x
         = Some (\<lparr>array_ptr' = buf, size' = size' v + 1, capacity' = 2 * capacity' v\<rparr>, pos)"
      "length buf = 2 * capacity' v"
      "take (Suc (size' v)) buf = take pos (elems v) @ [x] @ drop pos (elems v)"
      by blast
    then show ?thesis using full by (simp add: elems_def invariant_def)
  next
    case spare
    from Insert_move_inplace [OF assms spare, of T x] obtain buf where
      "Insert_move T v pos x = Some (v\<lparr>array_ptr' := buf, size' := size' v + 1\<rparr>, pos)"
      "length buf = length (array_ptr' v)"
      "take (Suc (size' v)) buf = take pos (elems v) @ [x] @ drop pos (elems v)"
      by blast
    then show ?thesis using spare assms(1) by (simp add: elems_def invariant_def)
  qed
qed


lemma length_elems: "invariant v \<Longrightarrow> length (elems v) = size' v"
  by (simp add: elems_def invariant_def)

lemma copy_backward_within_Some:
  "first \<le> last' \<Longrightarrow> last' \<le> length buf \<Longrightarrow> last' - first \<le> d_last \<Longrightarrow>
   d_last \<le> length buf \<Longrightarrow> \<exists>r. copy_backward_within buf first last' d_last = Some r"
proof (induction buf first last' d_last rule: copy_backward_within.induct)
  case (1 buf first last' d_last)
  show ?case
  proof (cases "first = last'")
    case True
    then show ?thesis by (simp add: copy_backward_within.simps)
  next
    case False
    then have ok: "0 < last' \<and> last' \<le> length buf \<and> 0 < d_last \<and> d_last \<le> length buf"
      using "1.prems" by auto
    have "\<exists>r. copy_backward_within (buf[d_last - 1 := buf ! (last' - 1)]) first (last' - 1)
               (d_last - 1) = Some r"
      using "1.IH" [OF False ok] "1.prems" False by simp
    then show ?thesis
      using False ok by (subst copy_backward_within.simps) simp
  qed
qed

lemma copy_backward_within_None:
  "first \<le> last' \<Longrightarrow> d_last < last' - first \<Longrightarrow>
   copy_backward_within buf first last' d_last = None"
proof (induction buf first last' d_last rule: copy_backward_within.induct)
  case (1 buf first last' d_last)
  have ne: "first \<noteq> last'" using "1.prems" by auto
  show ?case
  proof (cases "0 < last' \<and> last' \<le> length buf \<and> 0 < d_last \<and> d_last \<le> length buf")
    case True
    have "first \<le> last' - 1" "d_last - 1 < last' - 1 - first"
      using "1.prems" True by arith+
    then have "copy_backward_within (buf[d_last - 1 := buf ! (last' - 1)]) first (last' - 1)
            (d_last - 1) = None"
      by (rule "1.IH" [OF ne True])
    then show ?thesis
      using ne True by (subst copy_backward_within.simps) simp
  next
    case False
    then show ?thesis
      using ne by (subst copy_backward_within.simps) auto
  qed
qed

lemma Insert_spare:
  assumes "capacity' v \<noteq> 0" "capacity' v \<noteq> size' v"
  shows "Insert T v pos x = do {
           buf \<leftarrow> copy_backward_within (array_ptr' v) pos (size' v) (pos + 1);
           buf \<leftarrow> store buf pos x;
           Some (v\<lparr>array_ptr' := buf, size' := size' v + 1\<rparr>, pos) }"
  using assms by (simp add: Insert_def)

lemma Insert_correct_when:
  assumes "invariant v" "pos \<le> size' v" "capacity' v = size' v \<or> pos = size' v"
  shows "\<exists>v'. Insert T v pos x = Some (v', pos)
          \<and> elems v' = take pos (elems v) @ [x] @ drop pos (elems v)
          \<and> size' v' = size' v + 1
          \<and> capacity' v' = (if capacity' v = size' v then max 1 (2 * capacity' v)
                             else capacity' v)
          \<and> invariant v'"
proof -
  consider (empty) "capacity' v = 0"
    | (full) "capacity' v \<noteq> 0" "capacity' v = size' v"
    | (spare) "capacity' v \<noteq> 0" "capacity' v \<noteq> size' v" "pos = size' v"
    using assms(3) by blast
  then show ?thesis
  proof cases
    case empty
    then have "size' v = 0" "pos = 0" using assms by (simp_all add: invariant_def)
    then show ?thesis
      using empty Insert_empty(1) [OF empty, of T pos x]
      by (simp add: elems_def invariant_def)
  next
    case full
    from Insert_full [OF assms(1,2) full, of T x] obtain buf where
      "Insert T v pos x
         = Some (\<lparr>array_ptr' = buf, size' = size' v + 1, capacity' = 2 * capacity' v\<rparr>, pos)"
      "length buf = 2 * capacity' v"
      "take (Suc (size' v)) buf = take pos (elems v) @ [x] @ drop pos (elems v)"
      by blast
    then show ?thesis using full by (simp add: elems_def invariant_def)
  next
    case spare
    have lt: "size' v < length (array_ptr' v)"
      using assms(1) spare by (simp add: invariant_def)
    have "Insert T v pos x
          = Some (v\<lparr>array_ptr' := (array_ptr' v)[pos := x], size' := size' v + 1\<rparr>, pos)"
      using spare lt
      by (simp add: Insert_spare copy_backward_within.simps store_def)
    moreover have "take (Suc (size' v)) ((array_ptr' v)[size' v := x]) = elems v @ [x]"
      using lt by (simp add: take_Suc_update elems_def)
    ultimately show ?thesis
      using spare assms(1) lt by (simp add: elems_def invariant_def)
  qed
qed

lemma Insert_invariant:
  assumes "invariant v" "pos \<le> size' v" "Insert T v pos x = Some (v', i)"
  shows "invariant v' \<and> size' v' = size' v + 1 \<and> i = pos"
proof (cases "capacity' v = size' v")
  case True
  then show ?thesis
    using Insert_correct_when [OF assms(1,2), of T x] assms(3) by auto
next
  case False
  then have spare: "capacity' v \<noteq> 0" "capacity' v \<noteq> size' v"
    using assms(1) by (auto simp add: invariant_def)
  from assms(3) obtain b1 b2 where
    b: "copy_backward_within (array_ptr' v) pos (size' v) (pos + 1) = Some b1"
       "store b1 pos x = Some b2"
       "v' = v\<lparr>array_ptr' := b2, size' := size' v + 1\<rparr>" "i = pos"
    unfolding Insert_spare [OF spare] by (auto simp add: bind_eq_Some_conv)
  have "length b1 = length (array_ptr' v)"
    using b(1) by (rule copy_backward_within_length)
  moreover have "length b2 = length b1"
    using b(2) by (auto simp add: store_def split: if_splits)
  ultimately show ?thesis
    using b(3,4) assms(1) spare by (simp add: invariant_def)
qed

lemma Insert_defined_iff:
  assumes "invariant v" "pos \<le> size' v"
  shows "(\<exists>r. Insert T v pos x = Some r)
         \<longleftrightarrow> capacity' v = size' v \<or> size' v \<le> 2 * pos + 1"
proof (cases "capacity' v = size' v")
  case True
  then show ?thesis using Insert_correct_when [OF assms, of T x] by auto
next
  case False
  then have spare: "capacity' v \<noteq> 0" "capacity' v \<noteq> size' v"
    using assms(1) by (auto simp add: invariant_def)
  have lt: "size' v < length (array_ptr' v)"
    using assms(1) spare by (simp add: invariant_def)
  show ?thesis
  proof (cases "size' v \<le> 2 * pos + 1")
    case True
    then have "size' v - pos \<le> pos + 1" by arith
    then obtain b1 where b1: "copy_backward_within (array_ptr' v) pos (size' v) (pos + 1) = Some b1"
      using copy_backward_within_Some [of pos "size' v" "array_ptr' v" "pos + 1"] assms(2) lt
      by auto
    have "length b1 = length (array_ptr' v)"
      using b1 by (rule copy_backward_within_length)
    then have "pos < length b1" using assms(2) lt by simp
    then show ?thesis
      using True b1 by (simp add: Insert_spare [OF spare] store_def)
  next
    case nok: False
    then have "copy_backward_within (array_ptr' v) pos (size' v) (pos + 1) = None"
      using assms(2) by (intro copy_backward_within_None) simp_all
    then show ?thesis
      using nok False by (simp add: Insert_spare [OF spare])
  qed
qed

lemma move_within_Some_le:
  "move_within T buf first last' d_first = Some r \<Longrightarrow> first \<le> last'"
proof (induction T buf first last' d_first rule: move_within.induct)
  case (1 T buf first last' d_first)
  show ?case
  proof (cases "first = last'")
    case True
    then show ?thesis by simp
  next
    case False
    show ?thesis
    proof (cases "first < length buf \<and> d_first < length buf")
      case True
      then have "move_within T (buf[first := Moved T (buf ! first), d_first := buf ! first])
                   (Suc first) last' (Suc d_first) = Some r"
        using "1.prems" False by (subst (asm) move_within.simps) simp
      then show ?thesis using "1.IH" [OF False True] by simp
    next
      case nok: False
      then show ?thesis using "1.prems" False
        by (subst (asm) move_within.simps) (simp split: if_splits)
    qed
  qed
qed

lemma Erase_Some_nonempty: "Erase T v pos = Some r \<Longrightarrow> pos < size' v"
  by (auto simp add: Erase_def bind_eq_Some_conv dest: move_within_Some_le)

lemma Erase_correct:
  assumes "invariant v" "pos < size' v"
  shows "\<exists>v'. Erase T v pos = Some (v', pos)
          \<and> elems v' = take pos (elems v) @ drop (Suc pos) (elems v)
          \<and> size' v' = size' v - 1 \<and> capacity' v' = capacity' v \<and> invariant v'"
proof -
  let ?buf = "array_ptr' v" and ?n = "size' v"
  have n: "Suc pos \<le> ?n" "?n \<le> length ?buf" using assms by (simp_all add: invariant_def)
  obtain r where r: "move_within T ?buf (Suc pos) ?n pos = Some r" "length r = length ?buf"
    "take (?n - 1) r = take pos ?buf @ take (?n - Suc pos) (drop (Suc pos) ?buf)"
    using move_within_shift [OF n refl, of T] by blast
  have e: "Erase T v pos = Some (v\<lparr>array_ptr' := r, size' := ?n - 1\<rparr>, pos)"
    using r(1) by (simp add: Erase_def)
  have "take pos (take ?n ?buf) = take pos ?buf" using n by (simp add: min_absorb1)
  moreover have "drop (Suc pos) (take ?n ?buf) = take (?n - Suc pos) (drop (Suc pos) ?buf)"
    by (simp add: drop_take)
  ultimately have "take (?n - 1) r = take pos (elems v) @ drop (Suc pos) (elems v)"
    using r(3) by (simp add: elems_def)
  then show ?thesis
    using e r(2) assms by (auto simp add: elems_def invariant_def)
qed

lemma Insert_move_Erase:
  assumes "invariant v" "pos \<le> size' v"
  shows "\<exists>v' v''. Insert_move T v pos x = Some (v', pos) \<and> Erase T v' pos = Some (v'', pos)
          \<and> elems v'' = elems v \<and> size' v'' = size' v"
proof -
  obtain v' where v': "Insert_move T v pos x = Some (v', pos)"
    "elems v' = take pos (elems v) @ [x] @ drop pos (elems v)"
    "size' v' = size' v + 1" "invariant v'"
    using Insert_move_correct [OF assms, of T x] by blast
  have "pos < size' v'" using v'(3) assms(2) by simp
  from Erase_correct [OF v'(4) this, of T] obtain v'' where v'': "Erase T v' pos = Some (v'', pos)"
    "elems v'' = take pos (elems v') @ drop (Suc pos) (elems v')" "size' v'' = size' v' - 1"
    by blast
  have "length (take pos (elems v)) = pos"
    using assms by (simp add: length_elems)
  then have "elems v'' = elems v"
    unfolding v''(2) v'(2) by simp
  then show ?thesis using v'(1,3) v''(1,3) by simp
qed

section \<open>PushBack and the growth policy\<close>

lemma PushBack_move_eq: "PushBack_move T v x = PushBack T v x"
  by (auto simp add: PushBack_move_def PushBack_def move_assign_def swap_def std_move_def)

lemma PushBack_spare:
  assumes "invariant v" "size' v < capacity' v"
  shows "PushBack T v x
         = Some (v\<lparr>array_ptr' := (array_ptr' v)[size' v := x], size' := size' v + 1\<rparr>)"
  using assms by (simp add: PushBack_def store_def invariant_def)

lemma PushBack_full:
  assumes "invariant v" "size' v = capacity' v"
  shows "\<exists>buf. PushBack T v x
           = Some \<lparr>array_ptr' = buf, size' = size' v + 1, capacity' = max 1 (2 * capacity' v)\<rparr>
         \<and> length buf = max 1 (2 * capacity' v)
         \<and> take (Suc (size' v)) buf = elems v @ [x]"
proof (cases "capacity' v = 0")
  case True
  then show ?thesis
    using assms
    by (simp add: PushBack_def SimpleVector_sized_eq store_def swap_def elems_def)
next
  case False
  let ?n = "size' v" and ?src = "array_ptr' v"
  let ?dst = "replicate (2 * ?n) (Default T)"
  have n: "?n \<le> length ?src" "0 < ?n" using assms False by (simp_all add: invariant_def)
  have c1: "std_copy ?src 0 ?n ?dst 0 = Some (take ?n ?src @ drop ?n ?dst)"
    using n std_copy_Some [of 0 ?n ?src 0 ?dst] by simp
  let ?b1 = "take ?n ?src @ drop ?n ?dst"
  have len1: "length ?b1 = 2 * ?n" using n by simp
  then have pos: "?n < length ?b1" using n by simp
  have c2: "store ?b1 ?n x = Some (?b1[?n := x])"
    using pos by (simp only: store_def if_True)
  have tk: "take (Suc ?n) (?b1[?n := x]) = elems v @ [x]"
  proof -
    have "take (Suc ?n) (?b1[?n := x]) = take ?n ?b1 @ [x]"
      using pos by (rule take_Suc_update)
    moreover have "take ?n ?b1 = take ?n ?src" using n by simp
    ultimately show ?thesis by (simp add: elems_def)
  qed
  have "PushBack T v x
        = Some \<lparr>array_ptr' = ?b1[?n := x], size' = ?n + 1, capacity' = 2 * capacity' v\<rparr>"
    using False assms(2) c1 c2 by (simp add: PushBack_def SimpleVector_sized_eq swap_def)
  moreover have "max 1 (2 * capacity' v) = 2 * capacity' v" using False by simp
  moreover have "length (?b1[?n := x]) = 2 * capacity' v" using len1 assms(2) by simp
  ultimately show ?thesis using tk by simp
qed

lemma PushBack_correct:
  assumes "invariant v"
  shows "\<exists>v'. PushBack T v x = Some v' \<and> elems v' = elems v @ [x] \<and> size' v' = size' v + 1
          \<and> capacity' v' = (if size' v = capacity' v then max 1 (2 * capacity' v)
                             else capacity' v)
          \<and> invariant v'"
proof (cases "size' v = capacity' v")
  case True
  from PushBack_full [OF assms True, of T x] obtain buf where
    "PushBack T v x
       = Some \<lparr>array_ptr' = buf, size' = size' v + 1, capacity' = max 1 (2 * capacity' v)\<rparr>"
    "length buf = max 1 (2 * capacity' v)" "take (Suc (size' v)) buf = elems v @ [x]"
    by blast
  then show ?thesis using True by (auto simp add: elems_def invariant_def)
next
  case False
  then have lt: "size' v < capacity' v" "size' v < length (array_ptr' v)"
    using assms by (simp_all add: invariant_def)
  have "take (Suc (size' v)) ((array_ptr' v)[size' v := x]) = elems v @ [x]"
    using lt(2) by (simp add: take_Suc_update elems_def)
  then show ?thesis
    using PushBack_spare [OF assms lt(1), of T x] False lt assms
    by (simp add: elems_def invariant_def)
qed

lemma push_all_correct:
  assumes "invariant v" "capacity' v = 0 \<or> (\<exists>k. capacity' v = 2 ^ k)"
  shows "\<exists>u. push_all (PushBack T) v xs = Some u \<and> elems u = elems v @ xs
          \<and> size' u = size' v + length xs
          \<and> (capacity' u = 0 \<or> (\<exists>k. capacity' u = 2 ^ k)) \<and> invariant u"
  using assms
proof (induction xs arbitrary: v)
  case Nil
  then show ?case by simp
next
  case (Cons x xs)
  from PushBack_correct [OF Cons.prems(1), of T x] obtain v' where
    v': "PushBack T v x = Some v'" "elems v' = elems v @ [x]" "size' v' = size' v + 1"
    "capacity' v' = (if size' v = capacity' v then max 1 (2 * capacity' v) else capacity' v)"
    "invariant v'"
    by blast
  have pow: "capacity' v' = 0 \<or> (\<exists>k. capacity' v' = 2 ^ k)"
  proof (cases "size' v = capacity' v")
    case False
    then show ?thesis using v'(4) Cons.prems(2) by simp
  next
    case True
    show ?thesis
    proof (cases "capacity' v = 0")
      case True
      then have "capacity' v' = 2 ^ 0" using v'(4) \<open>size' v = capacity' v\<close> by simp
      then show ?thesis by blast
    next
      case False
      then obtain k where "capacity' v = 2 ^ k" using Cons.prems(2) by auto
      then have "capacity' v' = 2 ^ Suc k" using v'(4) True by simp
      then show ?thesis by blast
    qed
  qed
  from Cons.IH [OF v'(5) pow] obtain u where
    "push_all (PushBack T) v' xs = Some u" "elems u = elems v' @ xs"
    "size' u = size' v' + length xs" "capacity' u = 0 \<or> (\<exists>k. capacity' u = 2 ^ k)"
    "invariant u"
    by blast
  then show ?case using v'(1,2,3) by simp
qed

lemma push_all_move_eq: "push_all (PushBack_move T) v xs = push_all (PushBack T) v xs"
  by (induction xs arbitrary: v) (simp_all add: PushBack_move_eq)


text \<open>
  C3. Both overloads of \<open>PushBack\<close> follow the growth policy. With \<open>size < capacity\<close>
  the value is stored at offset \<open>size\<close> of the array the vector already holds and the
  capacity is unchanged; with \<open>size = capacity\<close> the new capacity is
  \<open>max(1, 2 * capacity)\<close> and the old elements are followed by the new one. Starting
  from a default-constructed vector, pushing the elements of a list \<open>xs\<close> one by one
  gives a capacity that is 0 or a power of two and at least \<open>length xs\<close>, and the
  elements are \<open>xs\<close> in order.
\<close>

theorem C3_PushBack_growth:
  assumes "invariant v"
  shows "(size' v < capacity' v \<longrightarrow>
            PushBack T v x
              = Some (v\<lparr>array_ptr' := (array_ptr' v)[size' v := x], size' := size' v + 1\<rparr>)
            \<and> PushBack_move T v x
              = Some (v\<lparr>array_ptr' := (array_ptr' v)[size' v := x], size' := size' v + 1\<rparr>))
       \<and> (size' v = capacity' v \<longrightarrow>
            (\<exists>v'. PushBack T v x = Some v' \<and> PushBack_move T v x = Some v'
                  \<and> capacity' v' = max 1 (2 * capacity' v)
                  \<and> size' v' = size' v + 1 \<and> elems v' = elems v @ [x]))
       \<and> (\<exists>u. push_all (PushBack T) SimpleVector_default xs = Some u
                \<and> push_all (PushBack_move T) SimpleVector_default xs = Some u
                \<and> (capacity' u = 0 \<or> (\<exists>k. capacity' u = 2 ^ k))
                \<and> length xs \<le> capacity' u
                \<and> size' u = length xs \<and> elems u = xs)"
proof -
  have spare: "PushBack T v x
      = Some (v\<lparr>array_ptr' := (array_ptr' v)[size' v := x], size' := size' v + 1\<rparr>)"
    if "size' v < capacity' v"
    using PushBack_spare [OF assms that] .
  have full: "\<exists>v'. PushBack T v x = Some v' \<and> PushBack_move T v x = Some v'
                  \<and> capacity' v' = max 1 (2 * capacity' v)
                  \<and> size' v' = size' v + 1 \<and> elems v' = elems v @ [x]"
    if "size' v = capacity' v"
    using PushBack_correct [OF assms, of T x] that by (auto simp add: PushBack_move_eq)
  have d: "invariant (SimpleVector_default :: 'a SimpleVector)"
    "capacity' (SimpleVector_default :: 'a SimpleVector) = 0"
    "elems (SimpleVector_default :: 'a SimpleVector) = []"
    "size' (SimpleVector_default :: 'a SimpleVector) = 0"
    by (simp_all add: SimpleVector_default_def invariant_def elems_def)
  from push_all_correct [of SimpleVector_default T xs] d obtain u where
    u: "push_all (PushBack T) SimpleVector_default xs = Some u" "elems u = xs"
    "size' u = length xs" "capacity' u = 0 \<or> (\<exists>k. capacity' u = 2 ^ k)" "invariant u"
    by auto
  have "length xs \<le> capacity' u" using u(3,5) by (simp add: invariant_def)
  then have run: "\<exists>u. push_all (PushBack T) SimpleVector_default xs = Some u
                \<and> push_all (PushBack_move T) SimpleVector_default xs = Some u
                \<and> (capacity' u = 0 \<or> (\<exists>k. capacity' u = 2 ^ k))
                \<and> length xs \<le> capacity' u
                \<and> size' u = length xs \<and> elems u = xs"
    using u by (simp add: push_all_move_eq)
  show ?thesis using spare full run by (simp add: PushBack_move_eq)
qed

text \<open>
  The three cases at concrete vectors of \<open>int\<close>: spare capacity, a full vector, and
  three calls on a default-constructed vector.
\<close>

theorem C3_PushBack_growth_witness:
  "invariant \<lparr>array_ptr' = [10, 20, 30, 0 :: int], size' = 3, capacity' = 4\<rparr>
   \<and> PushBack int_Type \<lparr>array_ptr' = [10, 20, 30, 0], size' = 3, capacity' = 4\<rparr> 40
       = Some \<lparr>array_ptr' = [10, 20, 30, 40], size' = 4, capacity' = 4\<rparr>
   \<and> invariant \<lparr>array_ptr' = [10, 20 :: int], size' = 2, capacity' = 2\<rparr>
   \<and> (\<exists>v'. PushBack int_Type \<lparr>array_ptr' = [10, 20], size' = 2, capacity' = 2\<rparr> 30 = Some v'
           \<and> capacity' v' = 4 \<and> size' v' = 3 \<and> elems v' = [10, 20, 30])
   \<and> (\<exists>u. push_all (PushBack int_Type) SimpleVector_default [10, 20, 30] = Some u
           \<and> capacity' u = 4 \<and> size' u = 3 \<and> elems u = [10, 20, 30])"
proof -
  let ?a = "\<lparr>array_ptr' = [10, 20, 30, 0 :: int], size' = 3, capacity' = 4\<rparr>"
  let ?b = "\<lparr>array_ptr' = [10, 20 :: int], size' = 2, capacity' = 2\<rparr>"
  have a: "invariant ?a" and b: "invariant ?b" by (simp_all add: invariant_def)
  have "PushBack int_Type ?a 40 = Some \<lparr>array_ptr' = [10, 20, 30, 40], size' = 4, capacity' = 4\<rparr>"
    using C3_PushBack_growth [OF a, of int_Type 40 "[]"] by (simp add: eval_nat_numeral)
  moreover have "\<exists>v'. PushBack int_Type ?b 30 = Some v'
           \<and> capacity' v' = 4 \<and> size' v' = 3 \<and> elems v' = [10, 20, 30]"
    using C3_PushBack_growth [OF b, of int_Type 30 "[]"] by (auto simp add: elems_def)
  moreover have "\<exists>u. push_all (PushBack int_Type) SimpleVector_default [10, 20, 30] = Some u
           \<and> capacity' u = 4 \<and> size' u = 3 \<and> elems u = [10, 20, 30]"
  proof -
    from C3_PushBack_growth [OF a, of int_Type 40 "[10, 20, 30]"] obtain u where
      u: "push_all (PushBack int_Type) SimpleVector_default [10, 20, 30] = Some u"
      "size' u = 3" "elems u = [10, 20, 30]"
      by auto
    have "push_all (PushBack int_Type) SimpleVector_default [10, 20, 30]
          = Some \<lparr>array_ptr' = [10, 20, 30, 0], size' = 3, capacity' = 4\<rparr>"
      by code_simp
    then show ?thesis using u by auto
  qed
  ultimately show ?thesis using a b by blast
qed

section \<open>Constructors, Reserve and Resize\<close>

lemma SimpleVector_filled_eq:
  "SimpleVector_filled T n x = Some \<lparr>array_ptr' = replicate n x, size' = n, capacity' = n\<rparr>"
  by (simp add: SimpleVector_filled_def ArrayPtr_new_def std_fill_Some)

lemma SimpleVector_init_eq:
  "SimpleVector_init T xs = Some \<lparr>array_ptr' = xs, size' = length xs, capacity' = length xs\<rparr>"
  by (simp add: SimpleVector_init_def SimpleVector_sized_eq std_copy_Some swap_def
      SimpleVector_default_def)

lemma SimpleVector_copy_eq:
  assumes "size' other \<le> length (array_ptr' other)"
  shows "SimpleVector_copy T other
         = Some \<lparr>array_ptr' = elems other, size' = size' other, capacity' = size' other\<rparr>"
proof -
  have "std_copy (array_ptr' other) 0 (size' other) (replicate (size' other) (Uninit T)) 0
        = Some (take (size' other) (array_ptr' other))"
    using assms
      std_copy_Some [of 0 "size' other" "array_ptr' other" 0 "replicate (size' other) (Uninit T)"]
    by simp
  then show ?thesis
    by (simp add: SimpleVector_copy_def ArrayPtr_new_def elems_def)
qed

lemma Reserve_correct:
  assumes "invariant v"
  shows "\<exists>v'. Reserve T v n = Some v' \<and> elems v' = elems v \<and> size' v' = size' v
          \<and> capacity' v' = max (capacity' v) n \<and> invariant v'"
proof (cases "n > capacity' v")
  case False
  then show ?thesis using assms by (simp add: Reserve_def max_def)
next
  case True
  let ?k = "size' v" and ?src = "array_ptr' v"
  let ?dst = "replicate n (Default T)"
  have k: "?k \<le> length ?src" "?k \<le> n" using assms True by (simp_all add: invariant_def)
  have c: "std_copy ?src 0 ?k ?dst 0 = Some (take ?k ?src @ drop ?k ?dst)"
    using k std_copy_Some [of 0 ?k ?src 0 ?dst] by simp
  have "Reserve T v n
        = Some \<lparr>array_ptr' = take ?k ?src @ drop ?k ?dst, size' = ?k, capacity' = n\<rparr>"
    using True c by (simp add: Reserve_def SimpleVector_sized_eq std_move_def swap_def)
  then show ?thesis using k True by (simp add: elems_def invariant_def max_def)
qed

lemma Resize_shrink:
  assumes "n \<le> size' v"
  shows "Resize T v n = Some (v\<lparr>size' := n\<rparr>)"
  using assms by (simp add: Resize_def)

lemma Resize_within:
  assumes "invariant v" "size' v < n" "n \<le> capacity' v"
  shows "\<exists>buf. Resize T v n = Some (v\<lparr>array_ptr' := buf, size' := n\<rparr>)
          \<and> length buf = length (array_ptr' v)
          \<and> take n buf = elems v @ replicate (n - size' v) (Default T)"
proof -
  let ?k = "size' v" and ?src = "array_ptr' v"
  have k: "?k \<le> n" "n \<le> length ?src" using assms by (simp_all add: invariant_def)
  let ?buf = "take ?k ?src @ replicate (n - ?k) (Default T) @ drop n ?src"
  have f: "FillWithDefaultValue T ?src ?k n = Some ?buf"
    using k by (rule FillWithDefaultValue_Some)
  have "Resize T v n = Some (v\<lparr>array_ptr' := ?buf, size' := n\<rparr>)"
    using assms(2,3) f by (simp add: Resize_def)
  moreover have "length ?buf = length ?src" using k by simp
  moreover have "take n ?buf = elems v @ replicate (n - ?k) (Default T)"
    using k by (simp add: elems_def)
  ultimately show ?thesis by blast
qed

lemma Resize_grow:
  assumes "invariant v" "capacity' v < n"
  shows "\<exists>buf. Resize T v n
           = Some \<lparr>array_ptr' = buf, size' = n, capacity' = max (2 * capacity' v) n\<rparr>
          \<and> length buf = max (2 * capacity' v) n
          \<and> take n buf = elems v @ replicate (n - size' v) (Default T)"
proof -
  let ?k = "size' v" and ?src = "array_ptr' v"
  define m where "m = max (2 * capacity' v) n"
  let ?dst = "replicate m (Uninit T)"
  have k: "?k \<le> length ?src" "?k \<le> n" "n \<le> m" "?k \<le> m" "?k < n"
    using assms by (auto simp add: invariant_def m_def)
  have c: "std_copy ?src 0 ?k ?dst 0 = Some (take ?k ?src @ drop ?k ?dst)"
    using k std_copy_Some [of 0 ?k ?src 0 ?dst] by simp
  let ?b1 = "take ?k ?src @ drop ?k ?dst"
  have len1: "length ?b1 = m" using k by simp
  have "FillWithDefaultValue T ?b1 ?k m
        = Some (take ?k ?b1 @ replicate (m - ?k) (Default T) @ drop m ?b1)"
    using k len1 by (intro FillWithDefaultValue_Some) simp_all
  moreover have "take ?k ?b1 = take ?k ?src" using k by simp
  moreover have "drop m ?b1 = []" using len1 by simp
  ultimately have f: "FillWithDefaultValue T ?b1 ?k m
        = Some (take ?k ?src @ replicate (m - ?k) (Default T))"
    by simp
  let ?buf = "take ?k ?src @ replicate (m - ?k) (Default T)"
  have "Resize T v n = Some \<lparr>array_ptr' = ?buf, size' = n, capacity' = m\<rparr>"
    using k(5) assms(2) c f
    by (simp add: Resize_def ArrayPtr_new_def std_move_def Let_def flip: m_def)
  moreover have "length ?buf = m" using k by simp
  moreover have "take n ?buf = elems v @ replicate (n - ?k) (Default T)"
    using k by (simp add: elems_def min_absorb2)
  ultimately show ?thesis unfolding m_def by blast
qed

lemma Resize_correct:
  assumes "invariant v"
  shows "\<exists>v'. Resize T v n = Some v' \<and> size' v' = n
          \<and> elems v' = take n (elems v) @ replicate (n - size' v) (Default T)
          \<and> capacity' v' = (if capacity' v < n then max (2 * capacity' v) n else capacity' v)
          \<and> invariant v'"
proof -
  consider (shrink) "n \<le> size' v" | (within) "size' v < n" "n \<le> capacity' v"
    | (grow) "capacity' v < n"
    by linarith
  then show ?thesis
  proof cases
    case shrink
    then show ?thesis
      using assms Resize_shrink [OF shrink, of T]
      by (simp add: elems_def invariant_def min_absorb1)
  next
    case within
    from Resize_within [OF assms within, of T] obtain buf where
      "Resize T v n = Some (v\<lparr>array_ptr' := buf, size' := n\<rparr>)"
      "length buf = length (array_ptr' v)"
      "take n buf = elems v @ replicate (n - size' v) (Default T)"
      by blast
    then show ?thesis
      using within assms by (simp add: elems_def invariant_def)
  next
    case grow
    then have lt: "size' v < n" using assms by (simp add: invariant_def)
    from Resize_grow [OF assms grow, of T] obtain buf where
      "Resize T v n = Some \<lparr>array_ptr' = buf, size' = n, capacity' = max (2 * capacity' v) n\<rparr>"
      "length buf = max (2 * capacity' v) n"
      "take n buf = elems v @ replicate (n - size' v) (Default T)"
      by blast
    then show ?thesis
      using grow lt assms by (simp add: elems_def invariant_def)
  qed
qed




section \<open>Copy assignment and checked access\<close>

text \<open>
  C6. Copy assignment. Assigning a vector to itself leaves it as it is. Assigning an
  empty vector sets size and capacity to 0. Assigning a non-empty vector \<open>rhs\<close> gives
  a vector whose elements are those of \<open>rhs\<close>, in order, with size and capacity both
  \<open>rhs.size\<close>: it is the copy that the copy constructor builds, swapped in.
\<close>

theorem C6_copy_assign:
  "copy_assign T this This = Some this
       \<and> (IsEmpty rhs \<longrightarrow>
            (\<exists>v'. copy_assign T this (Other rhs) = Some v' \<and> size' v' = 0 \<and> capacity' v' = 0))
       \<and> (invariant rhs \<and> \<not> IsEmpty rhs \<longrightarrow>
            (\<exists>v'. copy_assign T this (Other rhs) = Some v' \<and> SimpleVector_copy T rhs = Some v'
                  \<and> elems v' = elems rhs \<and> size' v' = size' rhs \<and> capacity' v' = size' rhs))"
proof -
  have "copy_assign T this This = Some this"
    by (simp add: copy_assign_def)
  moreover have "\<exists>v'. copy_assign T this (Other rhs) = Some v' \<and> size' v' = 0 \<and> capacity' v' = 0"
    if "IsEmpty rhs"
    using that by (simp add: copy_assign_def Clear_def)
  moreover have "\<exists>v'. copy_assign T this (Other rhs) = Some v' \<and> SimpleVector_copy T rhs = Some v'
                  \<and> elems v' = elems rhs \<and> size' v' = size' rhs \<and> capacity' v' = size' rhs"
    if "invariant rhs \<and> \<not> IsEmpty rhs"
  proof -
    have le: "size' rhs \<le> length (array_ptr' rhs)"
      using that by (simp add: invariant_def)
    show ?thesis
      using that SimpleVector_copy_eq [OF le, of T]
      by (simp add: copy_assign_def swap_def elems_def)
  qed
  ultimately show ?thesis by blast
qed

text \<open>
  Self-assignment, assignment of an empty vector and assignment of \<open>{10, 20}\<close> (held
  with capacity 4) to a vector of three elements.
\<close>

theorem C6_copy_assign_witness:
  "invariant \<lparr>array_ptr' = [10, 20, 0, 0 :: int], size' = 2, capacity' = 4\<rparr>
   \<and> invariant \<lparr>array_ptr' = [5 :: int], size' = 0, capacity' = 1\<rparr>
   \<and> copy_assign int_Type \<lparr>array_ptr' = [1, 2, 3], size' = 3, capacity' = 3\<rparr> This
       = Some \<lparr>array_ptr' = [1, 2, 3], size' = 3, capacity' = 3\<rparr>
   \<and> (\<exists>v'. copy_assign int_Type \<lparr>array_ptr' = [1, 2, 3], size' = 3, capacity' = 3\<rparr>
              (Other \<lparr>array_ptr' = [5], size' = 0, capacity' = 1\<rparr>) = Some v'
           \<and> size' v' = 0 \<and> capacity' v' = 0)
   \<and> (\<exists>v'. copy_assign int_Type \<lparr>array_ptr' = [1, 2, 3], size' = 3, capacity' = 3\<rparr>
              (Other \<lparr>array_ptr' = [10, 20, 0, 0], size' = 2, capacity' = 4\<rparr>) = Some v'
           \<and> elems v' = [10, 20] \<and> size' v' = 2 \<and> capacity' v' = 2)"
proof -
  let ?r = "\<lparr>array_ptr' = [10, 20, 0, 0 :: int], size' = 2, capacity' = 4\<rparr>"
  let ?e = "\<lparr>array_ptr' = [5 :: int], size' = 0, capacity' = 1\<rparr>"
  let ?t = "\<lparr>array_ptr' = [1, 2, 3 :: int], size' = 3, capacity' = 3\<rparr>"
  have r: "invariant ?r" and e: "invariant ?e" by (simp_all add: invariant_def)
  have "copy_assign int_Type ?t This = Some ?t"
    using C6_copy_assign [of int_Type ?t ?r] by simp
  moreover have "\<exists>v'. copy_assign int_Type ?t (Other ?e) = Some v'
           \<and> size' v' = 0 \<and> capacity' v' = 0"
    using C6_copy_assign [of int_Type ?t ?e] by (simp add: IsEmpty_def)
  moreover have "\<exists>v'. copy_assign int_Type ?t (Other ?r) = Some v'
           \<and> elems v' = [10, 20] \<and> size' v' = 2 \<and> capacity' v' = 2"
    using C6_copy_assign [of int_Type ?t ?r] r by (auto simp add: IsEmpty_def elems_def)
  ultimately show ?thesis using r e by blast
qed

text \<open>
  C7. \<open>At(index)\<close> throws \<open>std::out_of_range\<close> exactly when \<open>index \<ge> size\<close>, and then
  the vector is as it was before the call. With \<open>index < size\<close> it returns the
  element in slot \<open>index\<close>, which is element \<open>index\<close> of the logical sequence.
\<close>

theorem C7_At:
  "((\<exists>v'. At v index = Some (Inl out_of_range, v')) \<longleftrightarrow> size' v \<le> index)
       \<and> (size' v \<le> index \<longrightarrow> At v index = Some (Inl out_of_range, v))
       \<and> (invariant v \<and> index < size' v \<longrightarrow>
            At v index = Some (Inr (array_ptr' v ! index), v)
            \<and> array_ptr' v ! index = elems v ! index)"
  by (auto simp add: At_def load_def invariant_def elems_def bind_eq_Some_conv)

text \<open>The scenario of the spec: \<open>At(5)\<close> on a vector of size 3, and \<open>At(1)\<close> on it.\<close>

theorem C7_At_witness:
  "invariant \<lparr>array_ptr' = [10, 20, 30, 0 :: int], size' = 3, capacity' = 4\<rparr>
   \<and> At \<lparr>array_ptr' = [10, 20, 30, 0 :: int], size' = 3, capacity' = 4\<rparr> 5
       = Some (Inl out_of_range, \<lparr>array_ptr' = [10, 20, 30, 0], size' = 3, capacity' = 4\<rparr>)
   \<and> At \<lparr>array_ptr' = [10, 20, 30, 0 :: int], size' = 3, capacity' = 4\<rparr> 1
       = Some (Inr 20, \<lparr>array_ptr' = [10, 20, 30, 0], size' = 3, capacity' = 4\<rparr>)"
proof -
  let ?a = "\<lparr>array_ptr' = [10, 20, 30, 0 :: int], size' = 3, capacity' = 4\<rparr>"
  have a: "invariant ?a" by (simp add: invariant_def)
  have "At ?a 5 = Some (Inl out_of_range, ?a)"
    using C7_At [of ?a 5] by simp
  moreover have "At ?a 1 = Some (Inr 20, ?a)"
    using C7_At [of ?a 1] a by simp
  ultimately show ?thesis using a by blast
qed

section \<open>Comparison operators\<close>

lemma equal_loop_Some:
  "first1 \<le> last1 \<Longrightarrow> last1 \<le> length a \<Longrightarrow> first2 + (last1 - first1) \<le> length b \<Longrightarrow>
   equal_loop a first1 last1 b first2
     = Some (take (last1 - first1) (drop first1 a) = take (last1 - first1) (drop first2 b))"
proof (induction a first1 last1 b first2 rule: equal_loop.induct)
  case (1 a first1 last1 b first2)
  show ?case
  proof (cases "first1 = last1")
    case True
    then show ?thesis by (simp add: equal_loop.simps)
  next
    case False
    with "1.prems" have lt: "first1 < last1" "first1 < length a" "first2 < length b"
      "first2 < first2 + (last1 - first1)" "first2 + (last1 - first1) \<le> length b"
      by auto
    have e: "first2 + (last1 - first1) - Suc first2 = last1 - Suc first1"
      using lt by simp
    have ca: "take (last1 - first1) (drop first1 a)
              = a ! first1 # take (last1 - Suc first1) (drop (Suc first1) a)"
      using lt "1.prems" by (simp add: take_drop_Cons)
    have cb: "take (last1 - first1) (drop first2 b)
              = b ! first2 # take (last1 - Suc first1) (drop (Suc first2) b)"
      using take_drop_Cons [OF lt(4,5)] e by simp
    show ?thesis
    proof (cases "a ! first1 = b ! first2")
      case True
      have "equal_loop a (Suc first1) last1 b (Suc first2)
            = Some (take (last1 - Suc first1) (drop (Suc first1) a)
                    = take (last1 - Suc first1) (drop (Suc first2) b))"
        using "1.IH" [OF False _ True] lt "1.prems" by simp
      moreover have "equal_loop a first1 last1 b first2
                     = equal_loop a (Suc first1) last1 b (Suc first2)"
        using False lt True by (subst equal_loop.simps) simp
      ultimately show ?thesis unfolding ca cb using True by simp
    next
      case ne: False
      have "equal_loop a first1 last1 b first2 = Some False"
        using False lt ne by (subst equal_loop.simps) simp
      then show ?thesis unfolding ca cb using ne by simp
    qed
  qed
qed

lemma std_lexicographical_compare_Some:
  "first1 \<le> last1 \<Longrightarrow> last1 \<le> length a \<Longrightarrow> first2 \<le> last2 \<Longrightarrow> last2 \<le> length b \<Longrightarrow>
   std_lexicographical_compare a first1 last1 b first2 last2
     = Some (ord_class.lexordp (take (last1 - first1) (drop first1 a))
                     (take (last2 - first2) (drop first2 b)))"
proof (induction a first1 last1 b first2 last2 rule: std_lexicographical_compare.induct)
  case (1 a first1 last1 b first2 last2)
  show ?case
  proof (cases "first1 \<noteq> last1 \<and> first2 \<noteq> last2")
    case False
    then have "std_lexicographical_compare a first1 last1 b first2 last2
               = Some (first1 = last1 \<and> first2 \<noteq> last2)"
      by (subst std_lexicographical_compare.simps) auto
    moreover have "take (last2 - first2) (drop first2 b) \<noteq> []" if "first2 \<noteq> last2"
      using that "1.prems" by simp
    ultimately show ?thesis using False by auto
  next
    case True
    with "1.prems" have lt: "first1 < last1" "first1 < length a" "first2 < last2"
      "first2 < length b"
      by auto
    have ok: "first1 < length a \<and> first2 < length b" using lt by simp
    have ca: "take (last1 - first1) (drop first1 a)
              = a ! first1 # take (last1 - Suc first1) (drop (Suc first1) a)"
      using lt "1.prems" by (simp add: take_drop_Cons)
    have cb: "take (last2 - first2) (drop first2 b)
              = b ! first2 # take (last2 - Suc first2) (drop (Suc first2) b)"
      using lt "1.prems" by (simp add: take_drop_Cons)
    consider (less) "a ! first1 < b ! first2"
      | (greater) "\<not> a ! first1 < b ! first2" "b ! first2 < a ! first1"
      | (equiv) "\<not> a ! first1 < b ! first2" "\<not> b ! first2 < a ! first1"
      by blast
    then show ?thesis
    proof cases
      case less
      have "std_lexicographical_compare a first1 last1 b first2 last2 = Some True"
        using True ok less by (subst std_lexicographical_compare.simps) simp
      then show ?thesis unfolding ca cb using less by simp
    next
      case greater
      have "std_lexicographical_compare a first1 last1 b first2 last2 = Some False"
        using True ok greater by (subst std_lexicographical_compare.simps) simp
      then show ?thesis unfolding ca cb using greater by simp
    next
      case equiv
      have "std_lexicographical_compare a (Suc first1) last1 b (Suc first2) last2
            = Some (ord_class.lexordp (take (last1 - Suc first1) (drop (Suc first1) a))
                            (take (last2 - Suc first2) (drop (Suc first2) b)))"
        using "1.IH" [OF True ok equiv] lt "1.prems" by simp
      moreover have "std_lexicographical_compare a first1 last1 b first2 last2
                     = std_lexicographical_compare a (Suc first1) last1 b (Suc first2) last2"
        using True ok equiv by (subst std_lexicographical_compare.simps) simp
      ultimately show ?thesis unfolding ca cb using equiv by simp
    qed
  qed
qed

lemma operator_eq_elems:
  assumes "invariant a" "invariant b"
  shows "operator_eq a b = Some (elems a = elems b)"
proof (cases "size' a = size' b")
  case False
  moreover have "length (elems a) = size' a" "length (elems b) = size' b"
    using assms by (simp_all add: length_elems)
  ultimately have "elems a \<noteq> elems b" by metis
  then show ?thesis using False by (simp add: operator_eq_def std_equal_def)
next
  case True
  have "equal_loop (array_ptr' a) 0 (size' a) (array_ptr' b) 0
        = Some (take (size' a - 0) (drop 0 (array_ptr' a))
                = take (size' a - 0) (drop 0 (array_ptr' b)))"
    using assms True by (intro equal_loop_Some) (simp_all add: invariant_def)
  then show ?thesis using True by (simp add: operator_eq_def std_equal_def elems_def)
qed

lemma operator_lt_elems:
  assumes "invariant a" "invariant b"
  shows "operator_lt a b = Some (ord_class.lexordp (elems a) (elems b))"
proof -
  have "std_lexicographical_compare (array_ptr' a) 0 (size' a) (array_ptr' b) 0 (size' b)
        = Some (ord_class.lexordp (take (size' a - 0) (drop 0 (array_ptr' a)))
                        (take (size' b - 0) (drop 0 (array_ptr' b))))"
    using assms by (intro std_lexicographical_compare_Some) (simp_all add: invariant_def)
  then show ?thesis by (simp add: operator_lt_def elems_def)
qed


text \<open>
  C8. For two vectors over an element type with a total order: \<open>a == b\<close> holds iff
  the logical sequences are equal, that is iff the sizes agree and the elements agree
  at every index below the size; \<open>a < b\<close> holds iff the logical sequence of \<open>a\<close> is
  lexicographically less than that of \<open>b\<close>; and \<open>!=\<close>, \<open>>\<close>, \<open><=\<close>, \<open>>=\<close> are
  \<open>!(a == b)\<close>, \<open>b < a\<close>, \<open>!(a > b)\<close> and \<open>!(a < b)\<close>.
\<close>

theorem C8_comparison:
  fixes a b :: "('a::linorder) SimpleVector"
  assumes "invariant a" "invariant b"
  shows "operator_eq a b = Some (elems a = elems b)
       \<and> (elems a = elems b \<longleftrightarrow>
            size' a = size' b \<and> (\<forall>i<size' a. array_ptr' a ! i = array_ptr' b ! i))
       \<and> operator_lt a b = Some ((elems a, elems b) \<in> lexord {(x, y). x < y})
       \<and> operator_ne a b = map_option Not (operator_eq a b)
       \<and> operator_gt a b = operator_lt b a
       \<and> operator_le a b = map_option Not (operator_gt a b)
       \<and> operator_ge a b = map_option Not (operator_lt a b)
       \<and> operator_ne a b = Some (elems a \<noteq> elems b)
       \<and> operator_gt a b = Some ((elems b, elems a) \<in> lexord {(x, y). x < y})
       \<and> operator_le a b = Some ((elems b, elems a) \<notin> lexord {(x, y). x < y})
       \<and> operator_ge a b = Some ((elems a, elems b) \<notin> lexord {(x, y). x < y})"
proof -
  have eq: "operator_eq a b = Some (elems a = elems b)"
    using assms by (rule operator_eq_elems)
  have lt: "operator_lt a b = Some ((elems a, elems b) \<in> lexord {(x, y). x < y})"
    using operator_lt_elems [OF assms] by (simp add: lexordp_conv_lexord)
  have gt: "operator_lt b a = Some ((elems b, elems a) \<in> lexord {(x, y). x < y})"
    using operator_lt_elems [OF assms(2,1)] by (simp add: lexordp_conv_lexord)
  have len: "length (elems a) = size' a" "length (elems b) = size' b"
    using assms by (simp_all add: length_elems)
  have nth_a: "elems a ! i = array_ptr' a ! i" if "i < size' a" for i
    using that by (simp add: elems_def)
  have nth_b: "elems b ! i = array_ptr' b ! i" if "i < size' b" for i
    using that by (simp add: elems_def)
  have pt: "elems a = elems b \<longleftrightarrow>
            size' a = size' b \<and> (\<forall>i<size' a. array_ptr' a ! i = array_ptr' b ! i)"
    using len nth_a nth_b by (auto simp add: list_eq_iff_nth_eq)
  show ?thesis
    using eq lt gt pt
    by (simp add: operator_ne_def operator_gt_def operator_le_def operator_ge_def)
qed

text \<open>The orderings of the spec: \<open>{1,2,3} < {1,2,4}\<close> and \<open>{1,2} < {1,2,3}\<close>.\<close>

theorem C8_comparison_witness:
  "invariant \<lparr>array_ptr' = [1, 2, 3 :: int], size' = 3, capacity' = 3\<rparr>
   \<and> invariant \<lparr>array_ptr' = [1, 2, 4 :: int], size' = 3, capacity' = 3\<rparr>
   \<and> invariant \<lparr>array_ptr' = [1, 2, 9 :: int], size' = 2, capacity' = 3\<rparr>
   \<and> operator_eq \<lparr>array_ptr' = [1, 2, 3 :: int], size' = 3, capacity' = 3\<rparr>
                  \<lparr>array_ptr' = [1, 2, 4], size' = 3, capacity' = 3\<rparr> = Some False
   \<and> operator_ne \<lparr>array_ptr' = [1, 2, 3 :: int], size' = 3, capacity' = 3\<rparr>
                  \<lparr>array_ptr' = [1, 2, 4], size' = 3, capacity' = 3\<rparr> = Some True
   \<and> operator_lt \<lparr>array_ptr' = [1, 2, 3 :: int], size' = 3, capacity' = 3\<rparr>
                  \<lparr>array_ptr' = [1, 2, 4], size' = 3, capacity' = 3\<rparr> = Some True
   \<and> operator_gt \<lparr>array_ptr' = [1, 2, 3 :: int], size' = 3, capacity' = 3\<rparr>
                  \<lparr>array_ptr' = [1, 2, 4], size' = 3, capacity' = 3\<rparr> = Some False
   \<and> operator_le \<lparr>array_ptr' = [1, 2, 3 :: int], size' = 3, capacity' = 3\<rparr>
                  \<lparr>array_ptr' = [1, 2, 4], size' = 3, capacity' = 3\<rparr> = Some True
   \<and> operator_ge \<lparr>array_ptr' = [1, 2, 3 :: int], size' = 3, capacity' = 3\<rparr>
                  \<lparr>array_ptr' = [1, 2, 4], size' = 3, capacity' = 3\<rparr> = Some False
   \<and> operator_lt \<lparr>array_ptr' = [1, 2, 9 :: int], size' = 2, capacity' = 3\<rparr>
                  \<lparr>array_ptr' = [1, 2, 3], size' = 3, capacity' = 3\<rparr> = Some True
   \<and> operator_eq \<lparr>array_ptr' = [1, 2, 3 :: int], size' = 3, capacity' = 3\<rparr>
                  \<lparr>array_ptr' = [1, 2, 3], size' = 3, capacity' = 3\<rparr> = Some True"
proof -
  let ?a = "\<lparr>array_ptr' = [1, 2, 3 :: int], size' = 3, capacity' = 3\<rparr>"
  let ?b = "\<lparr>array_ptr' = [1, 2, 4 :: int], size' = 3, capacity' = 3\<rparr>"
  let ?c = "\<lparr>array_ptr' = [1, 2, 9 :: int], size' = 2, capacity' = 3\<rparr>"
  have a: "invariant ?a" and b: "invariant ?b" and c: "invariant ?c"
    by (simp_all add: invariant_def)
  have e: "elems ?a = [1, 2, 3]" "elems ?b = [1, 2, 4]" "elems ?c = [1, 2]"
    by (simp_all add: elems_def)
  from C8_comparison [OF a b] have
    "operator_eq ?a ?b = Some (elems ?a = elems ?b)"
    "operator_ne ?a ?b = Some (elems ?a \<noteq> elems ?b)"
    "operator_lt ?a ?b = Some ((elems ?a, elems ?b) \<in> lexord {(x, y). x < y})"
    "operator_gt ?a ?b = Some ((elems ?b, elems ?a) \<in> lexord {(x, y). x < y})"
    "operator_le ?a ?b = Some ((elems ?b, elems ?a) \<notin> lexord {(x, y). x < y})"
    "operator_ge ?a ?b = Some ((elems ?a, elems ?b) \<notin> lexord {(x, y). x < y})"
    by blast+
  then have ab: "operator_eq ?a ?b = Some False" "operator_ne ?a ?b = Some True"
    "operator_lt ?a ?b = Some True" "operator_gt ?a ?b = Some False"
    "operator_le ?a ?b = Some True" "operator_ge ?a ?b = Some False"
    unfolding e by simp_all
  from C8_comparison [OF c a] have
    "operator_lt ?c ?a = Some ((elems ?c, elems ?a) \<in> lexord {(x, y). x < y})"
    by blast
  then have ca: "operator_lt ?c ?a = Some True"
    unfolding e by simp
  from C8_comparison [OF a a] have "operator_eq ?a ?a = Some (elems ?a = elems ?a)"
    by blast
  then have aa: "operator_eq ?a ?a = Some True"
    by simp
  show ?thesis using a b c ab ca aa by blast
qed

section \<open>The class invariant\<close>

text \<open>
  What holds of the invariant. \<open>size \<le> capacity\<close> (with the array holding at least
  \<open>capacity\<close> slots) holds for every vector a constructor builds, and every public
  operation but one that is called on vectors for which it holds, with a valid
  position where it takes one, has a defined result and gives vectors for which it
  holds: the copy and move constructors, both assignments, \<open>swap\<close>, both \<open>PushBack\<close>
  overloads, \<open>PopBack\<close>, \<open>Clear\<close>, \<open>Resize\<close>, \<open>Reserve\<close>, \<open>Insert(pos, Type&&)\<close> and
  \<open>Erase\<close>. The one is \<open>Insert(pos, const Type&)\<close>: it has a defined result, for
  which the invariant holds, when the vector is full or \<open>pos\<close> is \<open>end()\<close>. In the
  remaining case, spare capacity and \<open>pos\<close> before \<open>end()\<close>, only this is shown: if the
  call results in a vector, the invariant holds for it.
\<close>

lemma invariant_preserved:
  fixes v w :: "'a SimpleVector"
  assumes "invariant v" "invariant w"
  shows "invariant (SimpleVector_default :: 'a SimpleVector)
       \<and> (\<exists>u. SimpleVector_sized T n = Some u \<and> invariant u)
       \<and> (\<exists>u. SimpleVector_filled T n x = Some u \<and> invariant u)
       \<and> (\<exists>u. SimpleVector_init T xs = Some u \<and> invariant u)
       \<and> (\<exists>u. SimpleVector_reserved T r = Some u \<and> invariant u)
       \<and> (\<exists>u. SimpleVector_copy T v = Some u \<and> invariant u)
       \<and> invariant (fst (SimpleVector_move v))
       \<and> invariant (snd (SimpleVector_move v))
       \<and> copy_assign T v This = Some v
       \<and> (\<exists>u. copy_assign T v (Other w) = Some u \<and> invariant u)
       \<and> move_assign v This = (v, This)
       \<and> (\<exists>u w'. move_assign v (Other w) = (u, Other w') \<and> invariant u \<and> invariant w')
       \<and> invariant (fst (swap v w))
       \<and> invariant (snd (swap v w))
       \<and> (\<exists>u. PushBack T v x = Some u \<and> invariant u)
       \<and> (\<exists>u. PushBack_move T v x = Some u \<and> invariant u)
       \<and> invariant (PopBack v)
       \<and> invariant (Clear v)
       \<and> (\<exists>u. Resize T v n = Some u \<and> invariant u)
       \<and> (\<exists>u. Reserve T v n = Some u \<and> invariant u)
       \<and> (pos \<le> size' v \<longrightarrow> (\<exists>u. Insert_move T v pos x = Some (u, pos) \<and> invariant u))
       \<and> (pos \<le> size' v \<longrightarrow>
            (\<forall>u i. Insert T v pos x = Some (u, i) \<longrightarrow> invariant u)
            \<and> (capacity' v = size' v \<or> pos = size' v \<longrightarrow>
                 (\<exists>u. Insert T v pos x = Some (u, pos))))
       \<and> (pos < size' v \<longrightarrow> (\<exists>u. Erase T v pos = Some (u, pos) \<and> invariant u))"
proof -
  have le: "size' v \<le> length (array_ptr' v)"
    using assms(1) by (simp add: invariant_def)
  have c1: "invariant (SimpleVector_default :: 'a SimpleVector)"
    by (simp add: SimpleVector_default_def invariant_def)
  have c2: "\<exists>u. SimpleVector_sized T n = Some u \<and> invariant u"
    by (simp add: SimpleVector_sized_eq invariant_def)
  have c3: "\<exists>u. SimpleVector_filled T n x = Some u \<and> invariant u"
    by (simp add: SimpleVector_filled_eq invariant_def)
  have c4: "\<exists>u. SimpleVector_init T xs = Some u \<and> invariant u"
    by (simp add: SimpleVector_init_eq invariant_def)
  have c5: "\<exists>u. SimpleVector_reserved T r = Some u \<and> invariant u"
    using Reserve_correct [OF c1, of T "GetCapacity_proxy r"]
    by (auto simp add: SimpleVector_reserved_def)
  have c6: "\<exists>u. SimpleVector_copy T v = Some u \<and> invariant u"
    using le by (simp add: SimpleVector_copy_eq invariant_def elems_def)
  have c7: "invariant (fst (SimpleVector_move v))" "invariant (snd (SimpleVector_move v))"
    using assms(1) by (simp_all add: SimpleVector_move_def invariant_def)
  have c8: "copy_assign T v This = Some v"
    by (simp add: copy_assign_def)
  have c9: "\<exists>u. copy_assign T v (Other w) = Some u \<and> invariant u"
  proof (cases "IsEmpty w")
    case True
    then show ?thesis by (simp add: copy_assign_def Clear_def invariant_def)
  next
    case False
    have "size' w \<le> length (array_ptr' w)" using assms(2) by (simp add: invariant_def)
    then show ?thesis
      using False
      by (simp add: copy_assign_def SimpleVector_copy_eq swap_def invariant_def elems_def)
  qed
  have c10: "move_assign v This = (v, This)"
    by (simp add: move_assign_def)
  have c11: "\<exists>u w'. move_assign v (Other w) = (u, Other w') \<and> invariant u \<and> invariant w'"
    using assms(2) by (simp add: move_assign_def invariant_def)
  have c12: "invariant (fst (swap v w))" "invariant (snd (swap v w))"
    using assms by (simp_all add: swap_def invariant_def)
  have c13: "\<exists>u. PushBack T v x = Some u \<and> invariant u"
    using PushBack_correct [OF assms(1), of T x] by blast
  then have c14: "\<exists>u. PushBack_move T v x = Some u \<and> invariant u"
    by (simp add: PushBack_move_eq)
  have c15: "invariant (PopBack v)" "invariant (Clear v)"
    using assms(1) by (auto simp add: PopBack_def Clear_def invariant_def)
  have c16: "\<exists>u. Resize T v n = Some u \<and> invariant u"
    using Resize_correct [OF assms(1), of T n] by blast
  have c17: "\<exists>u. Reserve T v n = Some u \<and> invariant u"
    using Reserve_correct [OF assms(1), of T n] by blast
  have c18: "pos \<le> size' v \<longrightarrow> (\<exists>u. Insert_move T v pos x = Some (u, pos) \<and> invariant u)"
    using Insert_move_correct [OF assms(1), of pos T x] by blast
  have c19: "pos \<le> size' v \<longrightarrow>
            (\<forall>u i. Insert T v pos x = Some (u, i) \<longrightarrow> invariant u)
            \<and> (capacity' v = size' v \<or> pos = size' v \<longrightarrow>
                 (\<exists>u. Insert T v pos x = Some (u, pos)))"
  proof
    assume p: "pos \<le> size' v"
    have a: "\<forall>u i. Insert T v pos x = Some (u, i) \<longrightarrow> invariant u"
      using Insert_invariant [OF assms(1) p] by blast
    have b: "capacity' v = size' v \<or> pos = size' v \<longrightarrow>
             (\<exists>u. Insert T v pos x = Some (u, pos))"
      using Insert_correct_when [OF assms(1) p, of T x] by blast
    show "(\<forall>u i. Insert T v pos x = Some (u, i) \<longrightarrow> invariant u)
            \<and> (capacity' v = size' v \<or> pos = size' v \<longrightarrow>
                 (\<exists>u. Insert T v pos x = Some (u, pos)))"
      using a b by (rule conjI)
  qed
  have c20: "pos < size' v \<longrightarrow> (\<exists>u. Erase T v pos = Some (u, pos) \<and> invariant u)"
    using Erase_correct [OF assms(1), of pos T] by blast
  show ?thesis
    by (intro conjI) (fact c1 c2 c3 c4 c5 c6 c7 c8 c9 c10 c11 c12 c13 c14 c15 c16 c17 c18 c19 c20)+
qed


text \<open>
  The operations on the vector \<open>{10, 20, 30}\<close> of capacity 4 and the full vector
  \<open>{1, 2}\<close>, at the position \<open>begin() + 1\<close>; the copying \<open>Insert\<close> at \<open>end()\<close>.
\<close>

lemma invariant_preserved_example:
  "invariant \<lparr>array_ptr' = [10, 20, 30, 0 :: int], size' = 3, capacity' = 4\<rparr>
   \<and> invariant \<lparr>array_ptr' = [1, 2 :: int], size' = 2, capacity' = 2\<rparr>
   \<and> (\<exists>u. SimpleVector_copy int_Type
              \<lparr>array_ptr' = [10, 20, 30, 0], size' = 3, capacity' = 4\<rparr> = Some u \<and> invariant u)
   \<and> (\<exists>u. copy_assign int_Type \<lparr>array_ptr' = [10, 20, 30, 0], size' = 3, capacity' = 4\<rparr>
              (Other \<lparr>array_ptr' = [1, 2], size' = 2, capacity' = 2\<rparr>) = Some u \<and> invariant u)
   \<and> (\<exists>u. PushBack int_Type \<lparr>array_ptr' = [10, 20, 30, 0], size' = 3, capacity' = 4\<rparr> 99
             = Some u \<and> invariant u)
   \<and> (\<exists>u. Resize int_Type \<lparr>array_ptr' = [10, 20, 30, 0], size' = 3, capacity' = 4\<rparr> 5
             = Some u \<and> invariant u)
   \<and> (\<exists>u. Reserve int_Type \<lparr>array_ptr' = [10, 20, 30, 0], size' = 3, capacity' = 4\<rparr> 5
             = Some u \<and> invariant u)
   \<and> (\<exists>u. Insert_move int_Type \<lparr>array_ptr' = [10, 20, 30, 0], size' = 3, capacity' = 4\<rparr> 1 99
             = Some (u, 1) \<and> invariant u)
   \<and> (\<exists>u. Insert int_Type \<lparr>array_ptr' = [10, 20, 30, 0], size' = 3, capacity' = 4\<rparr> 3 99
             = Some (u, 3) \<and> invariant u)
   \<and> (\<exists>u. Erase int_Type \<lparr>array_ptr' = [10, 20, 30, 0], size' = 3, capacity' = 4\<rparr> 1
             = Some (u, 1) \<and> invariant u)"
proof -
  let ?v = "\<lparr>array_ptr' = [10, 20, 30, 0 :: int], size' = 3, capacity' = 4\<rparr>"
  let ?w = "\<lparr>array_ptr' = [1, 2 :: int], size' = 2, capacity' = 2\<rparr>"
  have v: "invariant ?v" and w: "invariant ?w" by (simp_all add: invariant_def)
  note all = invariant_preserved [OF v w, where T = int_Type and n = 5 and x = 99 and pos = 1
      and xs = "[1, 2]" and r = "ReserveProxyObj 3"]
  have "\<exists>u. SimpleVector_copy int_Type ?v = Some u \<and> invariant u"
    using all by - (elim conjE, assumption)
  moreover have "\<exists>u. copy_assign int_Type ?v (Other ?w) = Some u \<and> invariant u"
    using all by - (elim conjE, assumption)
  moreover have "\<exists>u. PushBack int_Type ?v 99 = Some u \<and> invariant u"
    using all by - (elim conjE, assumption)
  moreover have "\<exists>u. Resize int_Type ?v 5 = Some u \<and> invariant u"
    using all by - (elim conjE, assumption)
  moreover have "\<exists>u. Reserve int_Type ?v 5 = Some u \<and> invariant u"
    using all by - (elim conjE, assumption)
  moreover have "1 \<le> size' ?v \<longrightarrow> (\<exists>u. Insert_move int_Type ?v 1 99 = Some (u, 1) \<and> invariant u)"
    using all by - (elim conjE, assumption)
  then have "\<exists>u. Insert_move int_Type ?v 1 99 = Some (u, 1) \<and> invariant u"
    by simp
  moreover have "3 \<le> size' ?v \<longrightarrow>
            (\<forall>u i. Insert int_Type ?v 3 99 = Some (u, i) \<longrightarrow> invariant u)
            \<and> (capacity' ?v = size' ?v \<or> 3 = size' ?v \<longrightarrow>
                 (\<exists>u. Insert int_Type ?v 3 99 = Some (u, 3)))"
    using invariant_preserved [OF v w, where T = int_Type and n = 5 and x = 99 and pos = 3
      and xs = "[1, 2]" and r = "ReserveProxyObj 3"]
    by - (elim conjE, assumption)
  then have "\<exists>u. Insert int_Type ?v 3 99 = Some (u, 3) \<and> invariant u"
    by auto
  moreover have "1 < size' ?v \<longrightarrow> (\<exists>u. Erase int_Type ?v 1 = Some (u, 1) \<and> invariant u)"
    using all by - (elim conjE, assumption)
  then have "\<exists>u. Erase int_Type ?v 1 = Some (u, 1) \<and> invariant u"
    by simp
  ultimately show ?thesis using v w by blast
qed

text \<open>
  C9. The invariant \<open>size \<le> capacity\<close> is to be preserved by every public operation
  under its precondition. It is by all of them but \<open>Insert(pos, const Type&)\<close>
  (\<open>invariant_preserved\<close>). That overload, on a vector with spare capacity and
  \<open>size > 2 * pos + 1\<close>, has no defined result (\<open>Insert_defined_iff\<close>): its call
  \<open>std::copy_backward(begin() + pos, end(), begin() + pos + 1)\<close> copies \<open>size - pos\<close>
  elements into the \<open>pos + 1\<close> slots that end at \<open>begin() + pos + 1\<close>. Three \<open>PushBack\<close>
  calls give the vector \<open>{10, 20, 30}\<close> with capacity 4, for which the invariant
  holds, and \<open>begin()\<close> is a valid position; inserting the lvalue 99 there assigns
  slot 2 to slot 0 and then writes to the two slots in front of the array. The
  \<open>Type&&\<close> overload gives \<open>{99, 10, 20, 30}\<close> with size 4 and capacity 4 on the same
  input.
\<close>

theorem C9_Insert_copy_in_front_of_array:
  "push_all (PushBack int_Type) SimpleVector_default [10, 20, 30]
     = Some \<lparr>array_ptr' = [10, 20, 30, 0], size' = 3, capacity' = 4\<rparr>
   \<and> invariant \<lparr>array_ptr' = [10, 20, 30, 0 :: int], size' = 3, capacity' = 4\<rparr>
   \<and> 0 \<le> size' \<lparr>array_ptr' = [10, 20, 30, 0 :: int], size' = 3, capacity' = 4\<rparr>
   \<and> copy_backward_within [10, 20, 30, 0 :: int] 0 3 1 = None
   \<and> Insert int_Type \<lparr>array_ptr' = [10, 20, 30, 0], size' = 3, capacity' = 4\<rparr> 0 99 = None
   \<and> Insert_move int_Type \<lparr>array_ptr' = [10, 20, 30, 0], size' = 3, capacity' = 4\<rparr> 0 99
     = Some (\<lparr>array_ptr' = [99, 10, 20, 30], size' = 4, capacity' = 4\<rparr>, 0)
   \<and> invariant \<lparr>array_ptr' = [99, 10, 20, 30 :: int], size' = 4, capacity' = 4\<rparr>"
  by code_simp

section \<open>The copying Insert on a vector with spare capacity\<close>

text \<open>
  The two overloads of \<open>Insert\<close> agree, whatever \<open>std::move\<close> leaves behind, when the
  vector is full or the position is \<open>end()\<close>.
\<close>

lemma Insert_overloads_agree_when:
  assumes "invariant v" "pos \<le> size' v" "capacity' v = size' v \<or> pos = size' v"
  shows "Insert_move T v pos x = Insert T v pos x"
proof -
  consider (empty) "capacity' v = 0"
    | (full) "capacity' v \<noteq> 0" "capacity' v = size' v"
    | (spare) "capacity' v \<noteq> 0" "capacity' v \<noteq> size' v" "pos = size' v"
    using assms(3) by blast
  then show ?thesis
  proof cases
    case empty
    then show ?thesis by (simp add: Insert_empty)
  next
    case full
    then show ?thesis using Insert_full [OF assms(1,2) full, of T x] by auto
  next
    case spare
    then show ?thesis
      by (simp add: Insert_def Insert_move_def copy_backward_within.simps
          move_backward_within.simps)
  qed
qed

text \<open>
  C1. \<open>Insert(pos, x)\<close> is to give the elements before \<open>pos\<close>, then \<open>x\<close>, then the
  elements from \<open>pos\<close> on, to return the offset of \<open>x\<close> and to add 1 to the size.
  The \<open>Type&&\<close> overload does so in all three branches (\<open>Insert_move_correct\<close>), and
  the \<open>const Type&\<close> overload does when the vector is full, has capacity 0, or the
  position is \<open>end()\<close> (\<open>Insert_correct_when\<close>). The property fails for the
  \<open>const Type&\<close> overload on a vector with spare capacity and a position before
  \<open>end()\<close>: the call \<open>std::copy_backward(begin() + pos, end(), begin() + pos + 1)\<close>
  names \<open>begin() + pos + 1\<close> as the end of the destination, where the other overload
  and the full branch name \<open>begin() + size_ + 1\<close>. Three \<open>PushBack\<close> calls give the
  vector \<open>{10, 20, 30}\<close> with capacity 4; inserting the lvalue 99 at \<open>begin() + 2\<close>
  gives \<open>{10, 20, 99, 0}\<close>, not \<open>{10, 20, 99, 30}\<close>: the last element is lost and
  the stale slot behind it has become an element. The \<open>Type&&\<close> overload gives
  \<open>{10, 20, 99, 30}\<close> on the same input.
\<close>

theorem C1_Insert_copy_spare_capacity:
  "push_all (PushBack int_Type) SimpleVector_default [10, 20, 30]
     = Some \<lparr>array_ptr' = [10, 20, 30, 0], size' = 3, capacity' = 4\<rparr>
   \<and> Insert int_Type \<lparr>array_ptr' = [10, 20, 30, 0], size' = 3, capacity' = 4\<rparr> 2 99
     = Some (\<lparr>array_ptr' = [10, 20, 99, 0], size' = 4, capacity' = 4\<rparr>, 2)
   \<and> elems \<lparr>array_ptr' = [10, 20, 99, 0 :: int], size' = 4, capacity' = 4\<rparr> = [10, 20, 99, 0]
   \<and> take 2 (elems \<lparr>array_ptr' = [10, 20, 30, 0 :: int], size' = 3, capacity' = 4\<rparr>) @ [99]
       @ drop 2 (elems \<lparr>array_ptr' = [10, 20, 30, 0], size' = 3, capacity' = 4\<rparr>)
     = [10, 20, 99, 30]
   \<and> Insert_move int_Type \<lparr>array_ptr' = [10, 20, 30, 0], size' = 3, capacity' = 4\<rparr> 2 99
     = Some (\<lparr>array_ptr' = [10, 20, 99, 30], size' = 4, capacity' = 4\<rparr>, 2)"
  by code_simp

lemma Insert_Erase_when:
  assumes "invariant v" "pos \<le> size' v" "capacity' v = size' v \<or> pos = size' v"
  shows "\<exists>v' v''. Insert T v pos x = Some (v', pos) \<and> Erase T v' pos = Some (v'', pos)
          \<and> elems v'' = elems v \<and> size' v'' = size' v"
proof -
  obtain v' where v': "Insert T v pos x = Some (v', pos)"
    "elems v' = take pos (elems v) @ [x] @ drop pos (elems v)"
    "size' v' = size' v + 1" "invariant v'"
    using Insert_correct_when [OF assms, of T x] by blast
  have "pos < size' v'" using v'(3) assms(2) by simp
  from Erase_correct [OF v'(4) this, of T] obtain v'' where v'': "Erase T v' pos = Some (v'', pos)"
    "elems v'' = take pos (elems v') @ drop (Suc pos) (elems v')" "size' v'' = size' v' - 1"
    by blast
  have "length (take pos (elems v)) = pos"
    using assms by (simp add: length_elems)
  then have "elems v'' = elems v"
    unfolding v''(2) v'(2) by simp
  then show ?thesis using v'(1,3) v''(1,3) by simp
qed

text \<open>
  C2. \<open>Insert\<close> followed by \<open>Erase\<close> at the same position restores the sequence when
  the value is inserted by the \<open>Type&&\<close> overload (\<open>Insert_move_Erase\<close>), and with the
  \<open>const Type&\<close> overload when the vector is full, as a vector fresh from the copy
  constructor is, or the position is \<open>end()\<close> (\<open>Insert_Erase_when\<close>). With the
  \<open>const Type&\<close> overload, spare capacity and a position before \<open>end()\<close> it does
  not: on the vector \<open>{10, 20, 30}\<close> with capacity 4, inserting the lvalue 99 at
  \<open>begin() + 2\<close> and erasing at \<open>begin() + 2\<close> gives \<open>{10, 20, 0}\<close>.
\<close>

theorem C2_Insert_copy_then_Erase:
  "Insert int_Type \<lparr>array_ptr' = [10, 20, 30, 0], size' = 3, capacity' = 4\<rparr> 2 99
     = Some (\<lparr>array_ptr' = [10, 20, 99, 0], size' = 4, capacity' = 4\<rparr>, 2)
   \<and> Erase int_Type \<lparr>array_ptr' = [10, 20, 99, 0], size' = 4, capacity' = 4\<rparr> 2
     = Some (\<lparr>array_ptr' = [10, 20, 0, 0], size' = 3, capacity' = 4\<rparr>, 2)
   \<and> elems \<lparr>array_ptr' = [10, 20, 0, 0 :: int], size' = 3, capacity' = 4\<rparr> = [10, 20, 0]
   \<and> elems \<lparr>array_ptr' = [10, 20, 30, 0 :: int], size' = 3, capacity' = 4\<rparr> = [10, 20, 30]"
  by code_simp

text \<open>
  C10. The two \<open>PushBack\<close> overloads give the same vector in every state
  (\<open>PushBack_move_eq\<close>), and the two \<open>Insert\<close> overloads agree when the vector is full
  or the position is \<open>end()\<close> (\<open>Insert_overloads_agree_when\<close>). On a vector with spare
  capacity and a position before \<open>end()\<close> they differ, also for \<open>int\<close>, where a
  moved-from object keeps its value: on \<open>{10, 20, 30}\<close> with capacity 4 and the
  position \<open>begin() + 2\<close>, the \<open>const Type&\<close> overload gives \<open>{10, 20, 99, 0}\<close> and the
  \<open>Type&&\<close> overload \<open>{10, 20, 99, 30}\<close>.
\<close>

theorem C10_Insert_overloads_differ:
  "Moved int_Type 30 = 30
   \<and> Insert int_Type \<lparr>array_ptr' = [10, 20, 30, 0], size' = 3, capacity' = 4\<rparr> 2 99
     = Some (\<lparr>array_ptr' = [10, 20, 99, 0], size' = 4, capacity' = 4\<rparr>, 2)
   \<and> Insert_move int_Type \<lparr>array_ptr' = [10, 20, 30, 0], size' = 3, capacity' = 4\<rparr> 2 99
     = Some (\<lparr>array_ptr' = [10, 20, 99, 30], size' = 4, capacity' = 4\<rparr>, 2)
   \<and> Insert int_Type \<lparr>array_ptr' = [10, 20, 30, 0], size' = 3, capacity' = 4\<rparr> 2 99
     \<noteq> Insert_move int_Type \<lparr>array_ptr' = [10, 20, 30, 0], size' = 3, capacity' = 4\<rparr> 2 99"
  by code_simp

section \<open>Construction from a reserve request\<close>

text \<open>
  C5. Constructing a vector from a \<open>ReserveProxyObj\<close> gives a vector of size 0 whose
  capacity is the capacity the proxy object carries; the array it holds has that
  many slots.
\<close>

theorem C5_reserve_constructor:
  "\<exists>v. SimpleVector_reserved T r = Some v \<and> GetSize v = 0
       \<and> GetCapacity v = GetCapacity_proxy r \<and> elems v = []
       \<and> length (array_ptr' v) = GetCapacity_proxy r \<and> invariant v"
  by (simp add: SimpleVector_reserved_def Reserve_def SimpleVector_default_def
      SimpleVector_sized_eq std_move_def std_copy.simps swap_def GetSize_def GetCapacity_def
      elems_def invariant_def)

end
